theory Spec2Isabelle
  imports Main "HOL-Library.Word"
begin

unbundle bit_operations_syntax

section \<open>The block pre-splitter of lib/compress/zstd\_preSplit.c\<close>

text \<open>
  Conventions of the embedding.
  \<^item> \<open>unsigned\<close> and \<open>int\<close> are \<open>32 word\<close>; \<open>U64\<close>, \<open>S64\<close> and \<open>size_t\<close> values that
    are stored or multiplied are \<open>64 word\<close> (an LP64 target); signed overflow is read as
    two's-complement wrap-around, and a signed value widens by sign extension (\<open>scast\<close>).
  \<^item> Byte offsets and sizes that only drive loops (\<open>srcSize\<close>, \<open>limit\<close>, \<open>n\<close>,
    \<open>pos\<close>, \<open>blockSize\<close>) are \<open>nat\<close>; the functions return \<open>None\<close> on the inputs
    where the \<open>size_t\<close> computation would wrap or where a debug assertion fails.
  \<^item> A \<open>const void*\<close> into the input is the list of the bytes from that address on;
    \<open>p + pos\<close> is \<open>drop pos p\<close>.
  \<^item> The workspace is the \<open>FPStats\<close> value the raw buffer is cast to.
\<close>

subsection \<open>Constants\<close>

definition THRESHOLD_PENALTY_RATE :: nat where
  "THRESHOLD_PENALTY_RATE = 16"

definition THRESHOLD_BASE :: int where
  "THRESHOLD_BASE = int THRESHOLD_PENALTY_RATE - 2"

definition THRESHOLD_PENALTY :: int where
  "THRESHOLD_PENALTY = 3"

definition HASHLENGTH :: nat where
  "HASHLENGTH = 2"

definition HASHLOG_MAX :: nat where
  "HASHLOG_MAX = 10"

definition HASHTABLESIZE :: nat where
  "HASHTABLESIZE = 2 ^ HASHLOG_MAX"

definition KNUTH :: "32 word" where
  "KNUTH = 0x9e3779b9"

definition CHUNKSIZE :: nat where
  "CHUNKSIZE = 8 * 2 ^ 10"

subsection \<open>Hasher\<close>

text \<open>
  Modelled from the spec: \<open>MEM_read16\<close> lives in common/mem.h, which is not part of the
  sources at hand. The spec says the two bytes are read as a 16-bit little/native-endian
  integer; the little-endian reading is taken.
\<close>

definition MEM_read16 :: "8 word list \<Rightarrow> nat \<Rightarrow> 16 word" where
  "MEM_read16 p n = ucast (p ! n) + push_bit 8 (ucast (p ! (n + 1)))"

text \<open>
  \<open>hash2 (p + n) hashLog\<close>. The assertion \<open>hashLog \<le> HASHLOG_MAX\<close> does not depend on
  the position, so it is checked once, by the callers of the sampling loop. The strategies
  use 9 and 10 bits. With \<open>hashLog = 0\<close> the C shift of a 32-bit value by 32 is undefined
  (\<open>drop_bit\<close> would give 0, a machine that masks the shift count gives the unshifted
  product, an index far outside the table): the callers of the sampling loop answer \<open>None\<close>
  there, so \<open>hash2\<close> is only evaluated with \<open>1 \<le> hashLog\<close>.
\<close>

definition hash2 :: "8 word list \<Rightarrow> nat \<Rightarrow> nat \<Rightarrow> 32 word" where
  "hash2 p n hashLog = drop_bit (32 - hashLog) ((ucast (MEM_read16 p n) :: 32 word) * KNUTH)"

subsection \<open>Fingerprints\<close>

record Fingerprint =
  events :: "32 word list"
  nbEvents :: "64 word"

record FPStats =
  pastEvents :: Fingerprint
  newEvents :: Fingerprint

text \<open>The array \<open>events\<close> has \<open>HASHTABLESIZE\<close> cells in every C value of the type.\<close>

definition wf_Fingerprint :: "Fingerprint \<Rightarrow> bool" where
  "wf_Fingerprint fp \<longleftrightarrow> length (events fp) = HASHTABLESIZE"

definition zeroed_Fingerprint :: Fingerprint where
  "zeroed_Fingerprint = \<lparr>events = replicate HASHTABLESIZE 0, nbEvents = 0\<rparr>"

text \<open>\<open>ZSTD_memset(fpstats, 0, sizeof(FPStats))\<close>: whatever the buffer held is gone.\<close>

definition initStats :: "FPStats \<Rightarrow> FPStats" where
  "initStats fpstats = \<lparr>pastEvents = zeroed_Fingerprint, newEvents = zeroed_Fingerprint\<rparr>"

subsection \<open>Fingerprint recorder\<close>

text \<open>
  The loop \<open>for (n = 0; n < limit; n += samplingRate) fp->events[hash2(p+n, hashLog)]++\<close>,
  entered at \<open>n\<close>. With \<open>samplingRate = 0\<close> the C loop does not end; that input is
  rejected by \<open>addEvents_generic\<close> below and never reaches the loop.
\<close>

function addEvents_loop ::
  "32 word list \<Rightarrow> 8 word list \<Rightarrow> nat \<Rightarrow> nat \<Rightarrow> nat \<Rightarrow> nat \<Rightarrow> 32 word list" where
  "addEvents_loop ev p limit samplingRate hashLog n =
     (if n < limit \<and> 0 < samplingRate
      then addEvents_loop (ev[unat (hash2 p n hashLog) := ev ! unat (hash2 p n hashLog) + 1])
             p limit samplingRate hashLog (n + samplingRate)
      else ev)"
  by pat_completeness auto
termination
  by (relation "measure (\<lambda>(ev, p, limit, samplingRate, hashLog, n). limit - n)") auto

declare addEvents_loop.simps [simp del]

text \<open>
  \<open>None\<close>: the assertion \<open>srcSize \<ge> HASHLENGTH\<close> or the one of \<open>hash2\<close> fails, the
  shift of \<open>hash2\<close> is undefined (\<open>hashLog = 0\<close>, a shift by 32), the stride is 0, the
  range is not inside the buffer, or \<open>n += samplingRate\<close> would wrap.
\<close>

definition addEvents_generic ::
  "Fingerprint \<Rightarrow> 8 word list \<Rightarrow> nat \<Rightarrow> nat \<Rightarrow> nat \<Rightarrow> Fingerprint option" where
  "addEvents_generic fp src srcSize samplingRate hashLog =
     (if HASHLENGTH \<le> srcSize \<and> 1 \<le> hashLog \<and> hashLog \<le> HASHLOG_MAX \<and> 0 < samplingRate
         \<and> srcSize \<le> length src \<and> srcSize + samplingRate < 2 ^ 64
      then let limit = srcSize - HASHLENGTH + 1 in
        Some (fp\<lparr>events := addEvents_loop (events fp) src limit samplingRate hashLog 0,
                 nbEvents := nbEvents fp + of_nat (limit div samplingRate)\<rparr>)
      else None)"

text \<open>
  \<open>ZSTD_memset(fp, 0, sizeof(unsigned) * (1 << hashLog))\<close> clears the first
  \<open>2 ^ hashLog\<close> cells of \<open>events\<close> only.
\<close>

definition recordFingerprint_generic ::
  "Fingerprint \<Rightarrow> 8 word list \<Rightarrow> nat \<Rightarrow> nat \<Rightarrow> nat \<Rightarrow> Fingerprint option" where
  "recordFingerprint_generic fp src srcSize samplingRate hashLog =
     addEvents_generic
       (fp\<lparr>events := replicate (2 ^ hashLog) 0 @ drop (2 ^ hashLog) (events fp), nbEvents := 0\<rparr>)
       src srcSize samplingRate hashLog"

definition ZSTD_recordFingerprint_1 :: "Fingerprint \<Rightarrow> 8 word list \<Rightarrow> nat \<Rightarrow> Fingerprint option" where
  "ZSTD_recordFingerprint_1 fp src srcSize = recordFingerprint_generic fp src srcSize 1 10"

definition ZSTD_recordFingerprint_5 :: "Fingerprint \<Rightarrow> 8 word list \<Rightarrow> nat \<Rightarrow> Fingerprint option" where
  "ZSTD_recordFingerprint_5 fp src srcSize = recordFingerprint_generic fp src srcSize 5 10"

definition ZSTD_recordFingerprint_11 :: "Fingerprint \<Rightarrow> 8 word list \<Rightarrow> nat \<Rightarrow> Fingerprint option" where
  "ZSTD_recordFingerprint_11 fp src srcSize = recordFingerprint_generic fp src srcSize 11 9"

subsection \<open>Fingerprint comparator\<close>

definition abs64 :: "64 word \<Rightarrow> 64 word" where
  "abs64 s64 = (if sint s64 < 0 then - s64 else s64)"

text \<open>\<open>None\<close>: the assertion \<open>hashLog \<le> HASHLOG_MAX\<close> fails.\<close>

definition fpDistance :: "Fingerprint \<Rightarrow> Fingerprint \<Rightarrow> nat \<Rightarrow> 64 word option" where
  "fpDistance fp1 fp2 hashLog =
     (if hashLog \<le> HASHLOG_MAX
      then Some (fold (\<lambda>n distance. distance +
                   abs64 (ucast (events fp1 ! n) * nbEvents fp2 - ucast (events fp2 ! n) * nbEvents fp1))
                 [0 ..< 2 ^ hashLog] 0)
      else None)"

text \<open>
  The C function returns the \<open>int\<close> 1 for "too different" and 0 otherwise; here
  \<open>True\<close> and \<open>False\<close>. The parameter \<open>penalty\<close> is a C \<open>int\<close>: \<open>THRESHOLD_BASE + penalty\<close>
  is added in 32 bits and the cast to \<open>U64\<close> extends the sign of the sum. \<open>None\<close>: one of
  the assertions fails, or \<open>penalty\<close> is not a value of the type \<open>int\<close>.
\<close>

definition compareFingerprints :: "Fingerprint \<Rightarrow> Fingerprint \<Rightarrow> int \<Rightarrow> nat \<Rightarrow> bool option" where
  "compareFingerprints ref newfp penalty hashLog =
     (if 0 < nbEvents ref \<and> 0 < nbEvents newfp
         \<and> - (2 ^ 31) \<le> penalty \<and> penalty < 2 ^ 31
      then case fpDistance ref newfp hashLog of
        None \<Rightarrow> None
      | Some deviation \<Rightarrow>
          let p50 = nbEvents ref * nbEvents newfp;
              base = (word_of_int THRESHOLD_BASE + word_of_int penalty :: 32 word);
              threshold = p50 * scast base div of_nat THRESHOLD_PENALTY_RATE
          in Some (threshold \<le> deviation)
      else None)"

subsection \<open>Fingerprint accumulator\<close>

definition mergeEvents :: "Fingerprint \<Rightarrow> Fingerprint \<Rightarrow> Fingerprint" where
  "mergeEvents acc newfp =
     \<lparr>events = fold (\<lambda>n ev. ev[n := ev ! n + events newfp ! n]) [0 ..< HASHTABLESIZE] (events acc),
      nbEvents = nbEvents acc + nbEvents newfp\<rparr>"

definition flushEvents :: "FPStats \<Rightarrow> FPStats" where
  "flushEvents fpstats =
     \<lparr>pastEvents =
        \<lparr>events = fold (\<lambda>n ev. ev[n := events (newEvents fpstats) ! n]) [0 ..< HASHTABLESIZE]
                    (events (pastEvents fpstats)),
         nbEvents = nbEvents (newEvents fpstats)\<rparr>,
      newEvents = zeroed_Fingerprint\<rparr>"

text \<open>\<open>None\<close>: the assertion \<open>acc->events[n] >= slice->events[n]\<close> fails for some cell.\<close>

definition removeEvents :: "Fingerprint \<Rightarrow> Fingerprint \<Rightarrow> Fingerprint option" where
  "removeEvents acc slice_fp =
     (if list_all (\<lambda>n. events slice_fp ! n \<le> events acc ! n) [0 ..< HASHTABLESIZE]
      then Some
        \<lparr>events = fold (\<lambda>n ev. ev[n := ev ! n - events slice_fp ! n]) [0 ..< HASHTABLESIZE] (events acc),
         nbEvents = nbEvents acc - nbEvents slice_fp\<rparr>
      else None)"

subsection \<open>Chunk scanner\<close>

text \<open>
  Modelled from the spec: the enumeration \<open>ZSTD_SplitBlock_strategy_e\<close> is declared in
  zstd\_preSplit.h, which is not part of the sources at hand; the spec names the three
  strategies level 1, 2 and 3, and the code indexes its tables with them in this order.
\<close>

datatype ZSTD_SplitBlock_strategy_e = split_lvl1 | split_lvl2 | split_lvl3

fun records_fs ::
  "ZSTD_SplitBlock_strategy_e \<Rightarrow> Fingerprint \<Rightarrow> 8 word list \<Rightarrow> nat \<Rightarrow> Fingerprint option" where
  "records_fs split_lvl1 = ZSTD_recordFingerprint_11"
| "records_fs split_lvl2 = ZSTD_recordFingerprint_5"
| "records_fs split_lvl3 = ZSTD_recordFingerprint_1"

fun hashParams :: "ZSTD_SplitBlock_strategy_e \<Rightarrow> nat" where
  "hashParams split_lvl1 = 9"
| "hashParams split_lvl2 = 10"
| "hashParams split_lvl3 = 10"

text \<open>The sampling stride of each strategy, as instantiated by \<open>ZSTD_GEN_RECORD_FINGERPRINT\<close>.\<close>

fun samplingRates :: "ZSTD_SplitBlock_strategy_e \<Rightarrow> nat" where
  "samplingRates split_lvl1 = 11"
| "samplingRates split_lvl2 = 5"
| "samplingRates split_lvl3 = 1"

text \<open>\<open>sizeof(FPStats)\<close>: two fingerprints of 1024 four-byte counters and one \<open>size_t\<close>.\<close>

definition sizeof_FPStats :: nat where
  "sizeof_FPStats = 2 * (HASHTABLESIZE * 4 + 8)"

text \<open>
  The variables of the scanning loop. The loop is entered only with
  \<open>blockSize = 128 KiB\<close>, where \<open>blockSize - CHUNKSIZE\<close> and \<open>pos += CHUNKSIZE\<close> do not
  wrap.
\<close>

record scan_state =
  fpstats :: FPStats
  penalty :: int
  pos :: nat

datatype iteration = Abort | Return nat | Continue scan_state

text \<open>
  One turn of the \<open>for\<close> loop of \<open>ZSTD_splitBlock_byChunks\<close>, with its increment
  \<open>pos += CHUNKSIZE\<close>. \<open>Abort\<close>: an assertion of the recorder or of the comparator fails.
\<close>

definition byChunks_body ::
  "ZSTD_SplitBlock_strategy_e \<Rightarrow> 8 word list \<Rightarrow> scan_state \<Rightarrow> iteration" where
  "byChunks_body splitStrat p st =
     (case records_fs splitStrat (newEvents (fpstats st)) (drop (pos st) p) CHUNKSIZE of
        None \<Rightarrow> Abort
      | Some cand \<Rightarrow>
          (case compareFingerprints (pastEvents (fpstats st)) cand (penalty st) (hashParams splitStrat) of
             None \<Rightarrow> Abort
           | Some True \<Rightarrow> Return (pos st)
           | Some False \<Rightarrow>
               Continue \<lparr>fpstats = \<lparr>pastEvents = mergeEvents (pastEvents (fpstats st)) cand,
                                     newEvents = cand\<rparr>,
                         penalty = (if 0 < penalty st then penalty st - 1 else penalty st),
                         pos = pos st + CHUNKSIZE\<rparr>))"

function byChunks_loop ::
  "ZSTD_SplitBlock_strategy_e \<Rightarrow> 8 word list \<Rightarrow> nat \<Rightarrow> scan_state \<Rightarrow> nat option" where
  "byChunks_loop splitStrat p blockSize st =
     (if pos st \<le> blockSize - CHUNKSIZE
      then (case byChunks_body splitStrat p st of
              Abort \<Rightarrow> None
            | Return r \<Rightarrow> Some r
            | Continue st' \<Rightarrow> byChunks_loop splitStrat p blockSize st')
      else Some blockSize)"
  by pat_completeness auto
termination
  by (relation "measure (\<lambda>(splitStrat, p, blockSize, st). blockSize - CHUNKSIZE + 1 - pos st)")
     (auto simp: byChunks_body_def CHUNKSIZE_def split: option.splits bool.splits)

declare byChunks_loop.simps [simp del]

text \<open>
  The states in which the loop body is entered, in order: one per comparison. The
  function follows \<open>byChunks_loop\<close> turn by turn and only observes it.
\<close>

function byChunks_trace ::
  "ZSTD_SplitBlock_strategy_e \<Rightarrow> 8 word list \<Rightarrow> nat \<Rightarrow> scan_state \<Rightarrow> scan_state list" where
  "byChunks_trace splitStrat p blockSize st =
     (if pos st \<le> blockSize - CHUNKSIZE
      then st # (case byChunks_body splitStrat p st of
                   Abort \<Rightarrow> []
                 | Return r \<Rightarrow> []
                 | Continue st' \<Rightarrow> byChunks_trace splitStrat p blockSize st')
      else [])"
  by pat_completeness auto
termination
  by (relation "measure (\<lambda>(splitStrat, p, blockSize, st). blockSize - CHUNKSIZE + 1 - pos st)")
     (auto simp: byChunks_body_def CHUNKSIZE_def split: option.splits bool.splits)

declare byChunks_trace.simps [simp del]

text \<open>The state in which the loop is entered: lines 158 to 168 of the source.\<close>

definition byChunks_init ::
  "ZSTD_SplitBlock_strategy_e \<Rightarrow> 8 word list \<Rightarrow> FPStats \<Rightarrow> scan_state option" where
  "byChunks_init splitStrat blockStart workspace =
     (let fpstats0 = initStats workspace in
      case records_fs splitStrat (pastEvents fpstats0) blockStart CHUNKSIZE of
        None \<Rightarrow> None
      | Some past \<Rightarrow>
          Some \<lparr>fpstats = fpstats0\<lparr>pastEvents := past\<rparr>, penalty = THRESHOLD_PENALTY, pos = CHUNKSIZE\<rparr>)"

text \<open>
  \<open>None\<close>: \<open>blockSize\<close> is not 128 KiB, the workspace is too small, the block is not
  \<open>blockSize\<close> bytes long, or an assertion fails further down. A null or misaligned
  workspace has no counterpart here.
\<close>

definition ZSTD_splitBlock_byChunks ::
  "8 word list \<Rightarrow> nat \<Rightarrow> ZSTD_SplitBlock_strategy_e \<Rightarrow> FPStats \<Rightarrow> nat \<Rightarrow> nat option" where
  "ZSTD_splitBlock_byChunks blockStart blockSize splitStrat workspace wkspSize =
     (if blockSize = 128 * 2 ^ 10 \<and> sizeof_FPStats \<le> wkspSize \<and> blockSize \<le> length blockStart
      then case byChunks_init splitStrat blockStart workspace of
        None \<Rightarrow> None
      | Some st \<Rightarrow> byChunks_loop splitStrat blockStart blockSize st
      else None)"

definition ZSTD_splitBlock ::
  "8 word list \<Rightarrow> nat \<Rightarrow> ZSTD_SplitBlock_strategy_e \<Rightarrow> FPStats \<Rightarrow> nat \<Rightarrow> nat option" where
  "ZSTD_splitBlock blockStart blockSize splitStrat workspace wkspSize =
     ZSTD_splitBlock_byChunks blockStart blockSize splitStrat workspace wkspSize"

text \<open>The comparisons of one call, as the states in which they are made.\<close>

definition ZSTD_splitBlock_trace ::
  "8 word list \<Rightarrow> nat \<Rightarrow> ZSTD_SplitBlock_strategy_e \<Rightarrow> FPStats \<Rightarrow> nat \<Rightarrow> scan_state list" where
  "ZSTD_splitBlock_trace blockStart blockSize splitStrat workspace wkspSize =
     (if blockSize = 128 * 2 ^ 10 \<and> sizeof_FPStats \<le> wkspSize \<and> blockSize \<le> length blockStart
      then case byChunks_init splitStrat blockStart workspace of
        None \<Rightarrow> []
      | Some st \<Rightarrow> byChunks_trace splitStrat blockStart blockSize st
      else [])"

subsection \<open>Auxiliary notions for the proofs\<close>

text \<open>
  The number of turns of the sampling loop over \<open>limit\<close> window positions: the offsets
  \<open>0, samplingRate, 2 * samplingRate, \<dots>\<close> below \<open>limit\<close>.
\<close>

definition nbSamples :: "nat \<Rightarrow> nat \<Rightarrow> nat" where
  "nbSamples limit samplingRate = (limit + samplingRate - 1) div samplingRate"

text \<open>What holds of the loop variables each time the loop condition is tested.\<close>

definition scan_inv :: "nat \<Rightarrow> scan_state \<Rightarrow> bool" where
  "scan_inv blockSize st \<longleftrightarrow>
     0 < unat (nbEvents (pastEvents (fpstats st))) \<and> unat (nbEvents (pastEvents (fpstats st))) \<le> pos st
     \<and> 0 < pos st \<and> pos st \<le> blockSize
     \<and> 0 \<le> penalty st \<and> penalty st \<le> THRESHOLD_PENALTY"

text \<open>
  Per chunk and strategy: the number of samples the recording loop takes, and the number
  of samples it books in \<open>nbEvents\<close>.
\<close>

definition chunk_hits :: "ZSTD_SplitBlock_strategy_e \<Rightarrow> nat" where
  "chunk_hits s = nbSamples (CHUNKSIZE - 1) (samplingRates s)"

definition chunk_nb :: "ZSTD_SplitBlock_strategy_e \<Rightarrow> nat" where
  "chunk_nb s = (CHUNKSIZE - 1) div samplingRates s"

text \<open>A fingerprint with one bucket in use.\<close>

definition single_bucket :: "nat \<Rightarrow> nat \<Rightarrow> nat \<Rightarrow> Fingerprint" where
  "single_bucket h cnt nb = \<lparr>events = (replicate HASHTABLESIZE 0)[h := of_nat cnt], nbEvents = of_nat nb\<rparr>"

text \<open>The bucket of the window made of a byte \<open>a\<close> followed by a byte \<open>b\<close>.\<close>

definition bucket :: "ZSTD_SplitBlock_strategy_e \<Rightarrow> 8 word \<Rightarrow> 8 word \<Rightarrow> nat" where
  "bucket s a b = unat (hash2 [a, b] 0 (hashParams s))"

text \<open>The cells of \<open>events\<close> that a recorder with \<open>hashLog\<close> bits leaves alone are 0.\<close>

definition clean_tail :: "nat \<Rightarrow> Fingerprint \<Rightarrow> bool" where
  "clean_tail hashLog fp \<longleftrightarrow>
     length (events fp) = HASHTABLESIZE
     \<and> drop (2 ^ hashLog) (events fp) = replicate (HASHTABLESIZE - 2 ^ hashLog) 0"

text \<open>
  The loop variables after \<open>k\<close> chunks that all hash to bucket \<open>h\<close> have been merged
  into the reference.
\<close>

definition uniform_state ::
  "ZSTD_SplitBlock_strategy_e \<Rightarrow> nat \<Rightarrow> nat \<Rightarrow> Fingerprint \<Rightarrow> int \<Rightarrow> scan_state" where
  "uniform_state s h k cand pen =
     \<lparr>fpstats = \<lparr>pastEvents = single_bucket h (k * chunk_hits s) (k * chunk_nb s), newEvents = cand\<rparr>,
      penalty = pen, pos = k * CHUNKSIZE\<rparr>"

subsection \<open>The comparator of the specification\<close>

text \<open>
  The specification states the comparator over the integers: the distance is the sum
  over the buckets of \<open>|ref.count[b] * cand.totalSamples - cand.count[b] * ref.totalSamples|\<close>,
  the threshold is \<open>ref.totalSamples * cand.totalSamples * (14 + penalty) / 16\<close>, and the
  verdict is \<open>distance \<ge> threshold\<close>. These definitions follow those words; the counters
  are read as the numbers they hold.
\<close>

definition spec_distance :: "Fingerprint \<Rightarrow> Fingerprint \<Rightarrow> nat \<Rightarrow> int" where
  "spec_distance ref cand hashLog =
     (\<Sum>b \<leftarrow> [0 ..< 2 ^ hashLog].
        \<bar>uint (events ref ! b) * uint (nbEvents cand) - uint (events cand ! b) * uint (nbEvents ref)\<bar>)"

definition spec_threshold :: "Fingerprint \<Rightarrow> Fingerprint \<Rightarrow> int \<Rightarrow> int" where
  "spec_threshold ref cand pen = uint (nbEvents ref) * uint (nbEvents cand) * (14 + pen) div 16"

definition spec_too_different :: "Fingerprint \<Rightarrow> Fingerprint \<Rightarrow> int \<Rightarrow> nat \<Rightarrow> bool" where
  "spec_too_different ref cand pen hashLog \<longleftrightarrow>
     spec_threshold ref cand pen \<le> spec_distance ref cand hashLog"

text \<open>
  The sum of the two cross products over the buckets: while it is below \<open>2 ^ 63\<close>, no
  product, difference or partial sum of \<open>fpDistance\<close> leaves the range of \<open>S64\<close>.
\<close>

definition cross_mass :: "Fingerprint \<Rightarrow> Fingerprint \<Rightarrow> nat \<Rightarrow> int" where
  "cross_mass ref cand hashLog =
     (\<Sum>b \<leftarrow> [0 ..< 2 ^ hashLog].
        uint (events ref ! b) * uint (nbEvents cand) + uint (events cand ! b) * uint (nbEvents ref))"

text \<open>
  The sum of the counters of a fingerprint with \<open>hashLog\<close> bits: the number of
  increments that produced them, as long as no counter has wrapped.
\<close>

definition events_total :: "nat \<Rightarrow> Fingerprint \<Rightarrow> int" where
  "events_total hashLog fp = (\<Sum>b \<leftarrow> [0 ..< 2 ^ hashLog]. uint (events fp ! b))"

text \<open>
  The samples, numbered from 0, of a recording loop entered at offset \<open>n\<close> whose window
  falls into bucket \<open>b\<close>.
\<close>

definition samples_in ::
  "8 word list \<Rightarrow> nat \<Rightarrow> nat \<Rightarrow> nat \<Rightarrow> nat \<Rightarrow> nat \<Rightarrow> nat set" where
  "samples_in p limit samplingRate hashLog n b =
     {j. n + j * samplingRate < limit \<and> unat (hash2 p (n + j * samplingRate) hashLog) = b}"

text \<open>
  A fingerprint over all \<open>HASHTABLESIZE\<close> buckets with total \<open>N\<close>, whose counters sum to
  \<open>N\<close> and whose samples are in bucket \<open>h\<close> but for \<open>D\<close> of them at most.
\<close>

definition near_single :: "nat \<Rightarrow> int \<Rightarrow> int \<Rightarrow> Fingerprint \<Rightarrow> bool" where
  "near_single h N D fp \<longleftrightarrow>
     length (events fp) = HASHTABLESIZE \<and> uint (nbEvents fp) = N
     \<and> events_total HASHLOG_MAX fp = N \<and> N - D \<le> uint (events fp ! h)"

subsection \<open>A block with a period of 11 bytes in its second chunk\<close>

text \<open>
  A chunk of zero bytes, except that the bytes at the offsets \<open>11 * q\<close> and \<open>11 * q + 1\<close>
  are 1; and a block of 128 KiB of zero bytes with this chunk in second place.
\<close>

definition aliasing_chunk :: "8 word list" where
  "aliasing_chunk = map (\<lambda>r. if r mod 11 < 2 then 1 else 0) [0 ..< CHUNKSIZE]"

definition aliasing_block :: "8 word list" where
  "aliasing_block = replicate CHUNKSIZE 0 @ aliasing_chunk @ replicate (14 * CHUNKSIZE) 0"

subsection \<open>The counts of the scanner\<close>

text \<open>
  What holds of the loop variables when \<open>k\<close> chunks have been merged into the reference:
  its counters sum to \<open>k\<close> times the samples of a chunk, and its total is \<open>k\<close> times the
  booked samples of a chunk.
\<close>

definition scan_counts :: "ZSTD_SplitBlock_strategy_e \<Rightarrow> nat \<Rightarrow> scan_state \<Rightarrow> bool" where
  "scan_counts s k st \<longleftrightarrow>
     wf_Fingerprint (pastEvents (fpstats st)) \<and> wf_Fingerprint (newEvents (fpstats st))
     \<and> events_total (hashParams s) (pastEvents (fpstats st)) = int (k * chunk_hits s)
     \<and> uint (nbEvents (pastEvents (fpstats st))) = int (k * chunk_nb s)
     \<and> pos st = k * CHUNKSIZE \<and> 0 \<le> penalty st \<and> penalty st \<le> 3"

section \<open>Reading words as numbers\<close>

lemma unat_of_nat64: "n < 2 ^ 64 \<Longrightarrow> unat (of_nat n :: 64 word) = n"
  by (simp add: unat_of_nat)

lemma unat_of_nat32: "n < 2 ^ 32 \<Longrightarrow> unat (of_nat n :: 32 word) = n"
  by (simp add: unat_of_nat)

lemma uint_of_nat32: "c < 2 ^ 32 \<Longrightarrow> uint (of_nat c :: 32 word) = int c"
  by (simp add: uint_nat unat_of_nat32)

lemma uint_of_nat64: "c < 2 ^ 64 \<Longrightarrow> uint (of_nat c :: 64 word) = int c"
  by (simp add: uint_nat unat_of_nat64)

lemma uint_word_of_int64: "0 \<le> k \<Longrightarrow> k < 2 ^ 64 \<Longrightarrow> uint (word_of_int k :: 64 word) = k"
  by (simp add: uint_word_of_int)

lemma word_of_int_sum_list:
  "(\<Sum>x \<leftarrow> xs. (word_of_int (f x) :: 'a::len word)) = word_of_int (\<Sum>x \<leftarrow> xs. f x)"
proof (induction xs)
  case Nil
  show ?case by simp
next
  case (Cons a xs)
  have "word_of_int (f a + (\<Sum>x \<leftarrow> xs. f x)) = (word_of_int (f a) :: 'a word) + word_of_int (\<Sum>x \<leftarrow> xs. f x)"
    by (rule wi_hom_add [symmetric])
  with Cons show ?case by (simp only: list.map sum_list.Cons)
qed

lemma sum_list_member_le:
  fixes f :: "'a \<Rightarrow> int"
  shows "(\<And>y. y \<in> set xs \<Longrightarrow> 0 \<le> f y) \<Longrightarrow> x \<in> set xs \<Longrightarrow> f x \<le> (\<Sum>x \<leftarrow> xs. f x)"
proof (induction xs)
  case Nil
  then show ?case by simp
next
  case (Cons a xs)
  have s: "0 \<le> (\<Sum>x \<leftarrow> xs. f x)" by (rule sum_list_nonneg) (use Cons.prems in auto)
  have a: "0 \<le> f a" using Cons.prems by simp
  show ?case
  proof (cases "x = a")
    case True
    with s show ?thesis by simp
  next
    case False
    with Cons.prems have "x \<in> set xs" by simp
    then have "f x \<le> (\<Sum>x \<leftarrow> xs. f x)" using Cons.IH Cons.prems(1) by simp
    with a show ?thesis by simp
  qed
qed

lemma sum_list_upt_two:
  fixes f :: "nat \<Rightarrow> int"
  assumes "h1 < n" "h2 < n" "\<And>b. b < n \<Longrightarrow> b \<noteq> h1 \<Longrightarrow> b \<noteq> h2 \<Longrightarrow> f b = 0"
  shows "(\<Sum>b \<leftarrow> [0 ..< n]. f b) = (if h1 = h2 then f h1 else f h1 + f h2)"
proof -
  have "(\<Sum>b \<leftarrow> [0 ..< n]. f b) = sum f {0 ..< n}"
    by (simp add: interv_sum_list_conv_sum_set_nat)
  also have "\<dots> = sum f {h1, h2}"
    using assms by (intro sum.mono_neutral_right) auto
  also have "\<dots> = (if h1 = h2 then f h1 else f h1 + f h2)" by simp
  finally show ?thesis .
qed

lemma sum_list_map_zero:
  fixes f :: "'a \<Rightarrow> int"
  shows "(\<And>x. x \<in> set xs \<Longrightarrow> f x = 0) \<Longrightarrow> (\<Sum>x \<leftarrow> xs. f x) = 0"
  by (induction xs) simp_all

lemma sum_list_upt_bump:
  fixes f g :: "nat \<Rightarrow> int"
  assumes "h < n" "g h = f h + 1" "\<And>b. b < n \<Longrightarrow> b \<noteq> h \<Longrightarrow> g b = f b"
  shows "(\<Sum>b \<leftarrow> [0 ..< n]. g b) = (\<Sum>b \<leftarrow> [0 ..< n]. f b) + 1"
proof -
  have "(\<Sum>b \<leftarrow> [0 ..< n]. g b) = sum g {0 ..< n}" "(\<Sum>b \<leftarrow> [0 ..< n]. f b) = sum f {0 ..< n}"
    by (simp_all add: interv_sum_list_conv_sum_set_nat)
  moreover have "sum g {0 ..< n} = g h + sum g ({0 ..< n} - {h})"
    using assms(1) by (intro sum.remove) simp_all
  moreover have "sum f {0 ..< n} = f h + sum f ({0 ..< n} - {h})"
    using assms(1) by (intro sum.remove) simp_all
  moreover have "sum g ({0 ..< n} - {h}) = sum f ({0 ..< n} - {h})"
    by (intro sum.cong) (simp_all add: assms(3))
  ultimately show ?thesis using assms(2) by simp
qed

lemma sum_list_cong:
  "(\<And>x. x \<in> set xs \<Longrightarrow> f x = g x) \<Longrightarrow> (\<Sum>x \<leftarrow> xs. f x) = (\<Sum>x \<leftarrow> xs. (g x :: int))"
  by (rule arg_cong [of _ _ sum_list], rule map_cong) simp_all

lemma sum_list_upt_delta:
  assumes "h < n"
  shows "(\<Sum>b \<leftarrow> [0 ..< n]. if b = h then c else (0 :: int)) = c"
  using sum_list_upt_two [of h n h "\<lambda>b. if b = h then c else 0"] assms by simp

lemma uint_succ32:
  fixes x :: "32 word"
  assumes "uint x + 1 < 2 ^ 32"
  shows "uint (x + 1) = uint x + 1"
  using assms by (simp add: uint_word_arith_bintrs take_bit_int_eq_self)

lemma uint_add32:
  fixes x y :: "32 word"
  shows "uint x + uint y < 2 ^ 32 \<Longrightarrow> uint (x + y) = uint x + uint y"
  by (simp add: uint_word_arith_bintrs take_bit_int_eq_self)

lemma uint_add64:
  fixes x y :: "64 word"
  shows "uint x + uint y < 2 ^ 64 \<Longrightarrow> uint (x + y) = uint x + uint y"
  by (simp add: uint_word_arith_bintrs take_bit_int_eq_self)

lemma events_cell_le_total:
  assumes "b < 2 ^ hashLog"
  shows "uint (ev ! b) \<le> (\<Sum>b \<leftarrow> [0 ..< 2 ^ hashLog]. uint (ev ! b))"
  using assms by (intro sum_list_member_le [of _ "\<lambda>b. uint (ev ! b)" b]) simp_all

lemma dvd_div_pred:
  assumes "(r :: nat) dvd m" "0 < m"
  shows "m div r = (m - 1) div r + 1"
proof -
  from assms(1) obtain q where q: "m = r * q" by (auto simp: dvd_def)
  have r: "0 < r" using assms(2) q by (cases "r = 0") simp_all
  have "0 < q" using assms(2) q by (cases "q = 0") simp_all
  then obtain q' where q': "q = Suc q'" by (cases q) simp_all
  have "r * Suc q' - 1 = (r - 1) + q' * r" using r by (simp add: mult.commute)
  then have "(r * Suc q' - 1) div r = (r - 1) div r + q'"
    using r by (simp only: div_mult_self1) 
  moreover have "(r - 1) div r = 0" using r by simp
  moreover have "(r * Suc q') div r = Suc q'" using r by (simp only: nonzero_mult_div_cancel_left)
  ultimately show ?thesis unfolding q q' by simp
qed

lemma window_offset_div: "r < 8 \<Longrightarrow> (11 * q + 2 + r) div 11 = (q::nat)"
  by simp

lemma window_offset_mod: "r < 8 \<Longrightarrow> (11 * q + 2 + r) mod 11 = 2 + (r::nat)"
proof -
  assume "r < 8"
  then have "(2 + r) mod 11 = 2 + r" by simp
  moreover have "(11 * q + (2 + r)) mod 11 = (2 + r) mod 11" by (rule mod_mult_self4)
  ultimately show ?thesis by (simp only: add.assoc)
qed

lemma window_offset_succ_mod: "r < 8 \<Longrightarrow> (11 * q + 2 + r + 1) mod 11 = 3 + (r::nat)"
proof -
  assume "r < 8"
  then have "(3 + r) mod 11 = 3 + r" by simp
  moreover have "(11 * q + (3 + r)) mod 11 = (3 + r) mod 11" by (rule mod_mult_self4)
  moreover have "11 * q + 2 + r + 1 = 11 * q + (3 + r)" by simp
  ultimately show ?thesis by (simp only:)
qed

lemma window_offset_bound: "(t::nat) < 5952 \<Longrightarrow> 11 * (t div 8) + 2 + t mod 8 < 8183"
proof -
  assume "t < 5952"
  then have "t div 8 < 744" by simp
  moreover have "t mod 8 < 8" by simp
  ultimately show ?thesis by linarith
qed

lemma window_offset_inj: "11 * ((x::nat) div 8) + 2 + x mod 8 = 11 * (y div 8) + 2 + y mod 8 \<Longrightarrow> x = y"
proof -
  assume a: "11 * (x div 8) + 2 + x mod 8 = 11 * (y div 8) + 2 + y mod 8"
  have x: "x mod 8 < 8" and y: "y mod 8 < 8" by simp_all
  from arg_cong [OF a, of "\<lambda>v. v div 11"] have d: "x div 8 = y div 8"
    by (simp only: window_offset_div [OF x] window_offset_div [OF y])
  from arg_cong [OF a, of "\<lambda>v. v mod 11"] have "2 + x mod 8 = 2 + y mod 8"
    by (simp only: window_offset_mod [OF x] window_offset_mod [OF y])
  then have m: "x mod 8 = y mod 8" by simp
  have "x = 8 * (x div 8) + x mod 8" "y = 8 * (y div 8) + y mod 8" by simp_all
  with d m show ?thesis by simp
qed

section \<open>The distance between two fingerprints\<close>

lemma sint_minus_cases:
  fixes z :: "64 word"
  shows "- z = z \<or> sint (- z) = - sint z"
proof (cases "sint z = - (2 ^ 63)")
  case True
  have "sint (- z) = signed_take_bit 63 (- sint z)"
    by (simp add: sint_word_ariths)
  also have "\<dots> = sint z" using True by simp
  finally have "- z = z" by (simp add: signed_word_eqI)
  then show ?thesis ..
next
  case False
  have "- (2 ^ 63) \<le> sint z" "sint z < 2 ^ 63"
    using sint_ge [of z] sint_lt [of z] by simp_all
  with False have "- (2 ^ 63) \<le> - sint z" "- sint z < 2 ^ 63" by simp_all
  then have "signed_take_bit 63 (- sint z) = - sint z"
    by (simp add: signed_take_bit_int_eq_self)
  then show ?thesis by (simp add: sint_word_ariths)
qed

lemma abs64_minus: "abs64 (- z) = abs64 z"
proof -
  consider "- z = z" | "sint (- z) = - sint z" using sint_minus_cases by blast
  then show ?thesis
  proof cases
    case 1 then show ?thesis by (rule arg_cong)
  next
    case 2
    have "sint z = 0 \<Longrightarrow> z = 0" by (metis sint_0 signed_word_eqI)
    with 2 show ?thesis by (auto simp: abs64_def)
  qed
qed

lemma fold_plus_sum_list:
  "fold (\<lambda>n (d::'a::comm_monoid_add). d + f n) xs a = a + sum_list (map f xs)"
  by (induction xs arbitrary: a) (simp_all add: add.assoc)

lemma fpDistance_sum:
  "fpDistance fp1 fp2 hashLog =
     (if hashLog \<le> HASHLOG_MAX
      then Some (\<Sum>n \<leftarrow> [0 ..< 2 ^ hashLog].
             abs64 (ucast (events fp1 ! n) * nbEvents fp2 - ucast (events fp2 ! n) * nbEvents fp1))
      else None)"
  by (simp add: fpDistance_def fold_plus_sum_list)

text \<open>
  Claim C9. The distance of the comparator is symmetric: for every two fingerprints and
  every \<open>hashLog \<le> 10\<close>, \<open>fpDistance\<close> returns a value, and the same value when
  the two fingerprints are swapped.
\<close>

theorem fpDistance_symmetric:
  "hashLog \<le> HASHLOG_MAX \<Longrightarrow>
   fpDistance fp1 fp2 hashLog = fpDistance fp2 fp1 hashLog
   \<and> (\<exists>d. fpDistance fp1 fp2 hashLog = Some d)"
proof -
  assume h: "hashLog \<le> HASHLOG_MAX"
  have "abs64 (ucast (events fp1 ! n) * nbEvents fp2 - ucast (events fp2 ! n) * nbEvents fp1)
      = abs64 (ucast (events fp2 ! n) * nbEvents fp1 - ucast (events fp1 ! n) * nbEvents fp2)" for n
    using abs64_minus [of "ucast (events fp1 ! n) * nbEvents fp2 - ucast (events fp2 ! n) * nbEvents fp1"]
    by simp
  with h show ?thesis by (simp add: fpDistance_sum)
qed

theorem fpDistance_symmetric_witness:
  "(1::nat) \<le> HASHLOG_MAX \<and>
   fpDistance \<lparr>events = (replicate HASHTABLESIZE 0)[0 := 1, 1 := 2], nbEvents = 3\<rparr>
              \<lparr>events = (replicate HASHTABLESIZE 0)[0 := 5], nbEvents = 5\<rparr> 1 = Some 20
   \<and> fpDistance \<lparr>events = (replicate HASHTABLESIZE 0)[0 := 5], nbEvents = 5\<rparr>
                \<lparr>events = (replicate HASHTABLESIZE 0)[0 := 1, 1 := 2], nbEvents = 3\<rparr> 1 = Some 20"
  using fpDistance_symmetric [of 1 "\<lparr>events = (replicate HASHTABLESIZE 0)[0 := 1, 1 := 2], nbEvents = 3\<rparr>"
      "\<lparr>events = (replicate HASHTABLESIZE 0)[0 := 5], nbEvents = 5\<rparr>"]
  by (simp add: fpDistance_def HASHLOG_MAX_def HASHTABLESIZE_def abs64_def upt_rec)

section \<open>The comparator against the specification\<close>

lemma abs64_of_int:
  assumes "- (2 ^ 63) < k" "k < 2 ^ 63"
  shows "abs64 (word_of_int k) = word_of_int \<bar>k\<bar>"
proof -
  have "sint (word_of_int k :: 64 word) = k"
    using assms by (simp add: sint_sbintrunc' signed_take_bit_int_eq_self)
  then show ?thesis by (simp add: abs64_def)
qed

lemma cross_term_of_int:
  fixes e1 e2 :: "32 word" and n1 n2 :: "64 word"
  shows "ucast e1 * n2 - ucast e2 * n1
         = (word_of_int (uint e1 * uint n2 - uint e2 * uint n1) :: 64 word)"
  by (simp only: ucast_eq wi_hom_syms word_of_int_uint)

lemma cross_term_exact:
  fixes e1 e2 :: "32 word" and n1 n2 :: "64 word"
  assumes "uint e1 * uint n2 + uint e2 * uint n1 < 2 ^ 63"
  shows "abs64 (ucast e1 * n2 - ucast e2 * n1)
         = word_of_int \<bar>uint e1 * uint n2 - uint e2 * uint n1\<bar>"
proof -
  let ?A = "uint e1 * uint n2" and ?B = "uint e2 * uint n1"
  have "0 \<le> ?A" "0 \<le> ?B" by simp_all
  with assms have "- (2 ^ 63) < ?A - ?B" "?A - ?B < 2 ^ 63" by linarith+
  then show ?thesis unfolding cross_term_of_int by (rule abs64_of_int)
qed

lemma cross_mass_term:
  assumes "b < 2 ^ hashLog"
  shows "uint (events ref ! b) * uint (nbEvents cand) + uint (events cand ! b) * uint (nbEvents ref)
         \<le> cross_mass ref cand hashLog"
  unfolding cross_mass_def
  using assms
  by (intro sum_list_member_le
       [of _ "\<lambda>b. uint (events ref ! b) * uint (nbEvents cand) + uint (events cand ! b) * uint (nbEvents ref)" b])
     simp_all

lemma spec_distance_bounds:
  "0 \<le> spec_distance ref cand hashLog"
  "spec_distance ref cand hashLog \<le> cross_mass ref cand hashLog"
proof -
  show "0 \<le> spec_distance ref cand hashLog"
    unfolding spec_distance_def by (rule sum_list_nonneg) auto
  show "spec_distance ref cand hashLog \<le> cross_mass ref cand hashLog"
    unfolding spec_distance_def cross_mass_def
    by (rule sum_list_mono) (simp add: abs_le_iff)
qed

text \<open>Within the range of \<open>S64\<close>, \<open>fpDistance\<close> computes the distance of the specification.\<close>

lemma fpDistance_exact:
  assumes "hashLog \<le> HASHLOG_MAX" "cross_mass ref cand hashLog < 2 ^ 63"
  shows "fpDistance ref cand hashLog = Some (word_of_int (spec_distance ref cand hashLog))"
proof -
  have "abs64 (ucast (events ref ! b) * nbEvents cand - ucast (events cand ! b) * nbEvents ref)
        = word_of_int \<bar>uint (events ref ! b) * uint (nbEvents cand)
                        - uint (events cand ! b) * uint (nbEvents ref)\<bar>"
    if "b \<in> set [0 ..< 2 ^ hashLog]" for b
  proof (rule cross_term_exact)
    from that have "b < 2 ^ hashLog" by simp
    from cross_mass_term [OF this, of ref cand] assms(2)
    show "uint (events ref ! b) * uint (nbEvents cand) + uint (events cand ! b) * uint (nbEvents ref) < 2 ^ 63"
      by simp
  qed
  then have "(\<Sum>b \<leftarrow> [0 ..< 2 ^ hashLog].
        abs64 (ucast (events ref ! b) * nbEvents cand - ucast (events cand ! b) * nbEvents ref))
      = (\<Sum>b \<leftarrow> [0 ..< 2 ^ hashLog].
        word_of_int \<bar>uint (events ref ! b) * uint (nbEvents cand)
                      - uint (events cand ! b) * uint (nbEvents ref)\<bar>)"
    by (intro arg_cong [of _ _ sum_list] map_cong) simp_all
  then show ?thesis
    using assms(1) by (simp only: fpDistance_sum word_of_int_sum_list spec_distance_def if_True)
qed

lemma int_sum_widens:
  assumes "0 \<le> pen" "14 + pen < 2 ^ 31"
  shows "(scast (word_of_int THRESHOLD_BASE + word_of_int pen :: 32 word) :: 64 word)
         = word_of_int (THRESHOLD_BASE + pen)"
proof -
  have s: "sint (word_of_int (14 + pen) :: 32 word) = 14 + pen"
    unfolding sint_sbintrunc' by (rule signed_take_bit_int_eq_self) (use assms in simp_all)
  have b: "THRESHOLD_BASE = 14" by (simp add: THRESHOLD_BASE_def THRESHOLD_PENALTY_RATE_def)
  show ?thesis
    by (simp only: b wi_hom_add scast_eq s)
qed

lemma penalty_small: "pen \<le> 3 \<Longrightarrow> 14 + pen < (2 ^ 31 :: int)"
  by simp

lemma compareFingerprints_exact:
  assumes hl: "hashLog \<le> HASHLOG_MAX"
    and pos: "0 < nbEvents ref" "0 < nbEvents cand" and pen: "0 \<le> pen" "14 + pen < 2 ^ 31"
    and mass: "cross_mass ref cand hashLog < 2 ^ 63"
    and prod: "uint (nbEvents ref) * uint (nbEvents cand) * (14 + pen) < 2 ^ 64"
  shows "compareFingerprints ref cand pen hashLog = Some (spec_too_different ref cand pen hashLog)"
proof -
  let ?P = "uint (nbEvents ref) * uint (nbEvents cand) * (14 + pen)"
  have P0: "0 \<le> ?P" using pen by simp
  have rng: "- (2 ^ 31) \<le> pen" "pen < 2 ^ 31" using pen by simp_all
  have d: "uint (word_of_int (spec_distance ref cand hashLog) :: 64 word) = spec_distance ref cand hashLog"
    using spec_distance_bounds [of ref cand hashLog] mass by (intro uint_word_of_int64) simp_all
  have "nbEvents ref * nbEvents cand * word_of_int (THRESHOLD_BASE + pen) = (word_of_int ?P :: 64 word)"
    by (simp only: wi_hom_syms word_of_int_uint THRESHOLD_BASE_def THRESHOLD_PENALTY_RATE_def) simp
  then have "uint (nbEvents ref * nbEvents cand * word_of_int (THRESHOLD_BASE + pen)
                 div (of_nat THRESHOLD_PENALTY_RATE :: 64 word)) = ?P div 16"
    using P0 prod by (simp only: uint_div uint_word_of_int64 THRESHOLD_PENALTY_RATE_def) simp
  then have "uint (nbEvents ref * nbEvents cand
                   * scast (word_of_int THRESHOLD_BASE + word_of_int pen :: 32 word)
                 div (of_nat THRESHOLD_PENALTY_RATE :: 64 word)) = ?P div 16"
    by (simp only: int_sum_widens [OF pen])
  then show ?thesis
    using hl pos rng d fpDistance_exact [OF hl mass]
    by (simp add: compareFingerprints_def Let_def spec_too_different_def spec_threshold_def word_le_def)
qed

lemma single_bucket_nth:
  assumes "b < HASHTABLESIZE" "c < 2 ^ 32"
  shows "uint (events (single_bucket h c n) ! b) = (if b = h then int c else 0)"
  using assms by (simp add: single_bucket_def nth_list_update uint_of_nat32)

lemma single_bucket_nb: "n < 2 ^ 64 \<Longrightarrow> uint (nbEvents (single_bucket h c n)) = int n"
  by (simp add: single_bucket_def uint_of_nat64)

lemma spec_distance_single:
  assumes "h1 < 2 ^ hashLog" "h2 < 2 ^ hashLog" "hashLog \<le> HASHLOG_MAX"
    "c1 < 2 ^ 32" "c2 < 2 ^ 32" "n1 < 2 ^ 64" "n2 < 2 ^ 64"
  shows "spec_distance (single_bucket h1 c1 n1) (single_bucket h2 c2 n2) hashLog
         = (if h1 = h2 then \<bar>int c1 * int n2 - int c2 * int n1\<bar> else int c1 * int n2 + int c2 * int n1)"
proof -
  have le: "(2::nat) ^ hashLog \<le> HASHTABLESIZE"
    using assms(3) by (simp add: HASHTABLESIZE_def)
  let ?f = "\<lambda>b. \<bar>uint (events (single_bucket h1 c1 n1) ! b) * uint (nbEvents (single_bucket h2 c2 n2))
              - uint (events (single_bucket h2 c2 n2) ! b) * uint (nbEvents (single_bucket h1 c1 n1))\<bar>"
  have f: "?f b = \<bar>(if b = h1 then int c1 else 0) * int n2 - (if b = h2 then int c2 else 0) * int n1\<bar>"
    if "b < 2 ^ hashLog" for b
    using that le assms by (simp only: single_bucket_nth single_bucket_nb less_le_trans [OF that le])
  have "(\<Sum>b \<leftarrow> [0 ..< 2 ^ hashLog]. ?f b) = (if h1 = h2 then ?f h1 else ?f h1 + ?f h2)"
    using assms(1,2) by (rule sum_list_upt_two) (simp add: f)
  then show ?thesis
    unfolding spec_distance_def f [OF assms(1)] f [OF assms(2)] by (simp add: abs_mult)
qed

lemma cross_mass_single:
  assumes "h1 < 2 ^ hashLog" "h2 < 2 ^ hashLog" "hashLog \<le> HASHLOG_MAX"
    "c1 < 2 ^ 32" "c2 < 2 ^ 32" "n1 < 2 ^ 64" "n2 < 2 ^ 64"
  shows "cross_mass (single_bucket h1 c1 n1) (single_bucket h2 c2 n2) hashLog
         = int c1 * int n2 + int c2 * int n1"
proof -
  have le: "(2::nat) ^ hashLog \<le> HASHTABLESIZE"
    using assms(3) by (simp add: HASHTABLESIZE_def)
  let ?f = "\<lambda>b. uint (events (single_bucket h1 c1 n1) ! b) * uint (nbEvents (single_bucket h2 c2 n2))
              + uint (events (single_bucket h2 c2 n2) ! b) * uint (nbEvents (single_bucket h1 c1 n1))"
  have f: "?f b = (if b = h1 then int c1 else 0) * int n2 + (if b = h2 then int c2 else 0) * int n1"
    if "b < 2 ^ hashLog" for b
    using that le assms by (simp only: single_bucket_nth single_bucket_nb less_le_trans [OF that le])
  have "(\<Sum>b \<leftarrow> [0 ..< 2 ^ hashLog]. ?f b) = (if h1 = h2 then ?f h1 else ?f h1 + ?f h2)"
    using assms(1,2) by (rule sum_list_upt_two) (simp add: f)
  then show ?thesis
    unfolding cross_mass_def f [OF assms(1)] f [OF assms(2)] by simp
qed

text \<open>
  Comparing two single-bucket fingerprints whose counters are far from the limits of the
  machine types.
\<close>

lemma compareFingerprints_single:
  assumes h: "h1 < 2 ^ hashLog" "h2 < 2 ^ hashLog" "hashLog \<le> HASHLOG_MAX"
    and c: "c1 < 2 ^ 20" "c2 < 2 ^ 20"
    and n: "0 < n1" "n1 < 2 ^ 20" "0 < n2" "n2 < 2 ^ 20"
    and pen: "0 \<le> pen" "pen \<le> 3"
  shows "compareFingerprints (single_bucket h1 c1 n1) (single_bucket h2 c2 n2) pen hashLog
         = Some (int n1 * int n2 * (14 + pen) div 16
                 \<le> (if h1 = h2 then \<bar>int c1 * int n2 - int c2 * int n1\<bar>
                     else int c1 * int n2 + int c2 * int n1))"
proof -
  have c32: "c1 < 2 ^ 32" "c2 < 2 ^ 32" using c by simp_all
  have n64: "n1 < 2 ^ 64" "n2 < 2 ^ 64" using n by simp_all
  have nb: "uint (nbEvents (single_bucket h1 c1 n1)) = int n1" "uint (nbEvents (single_bucket h2 c2 n2)) = int n2"
    using n64 by (simp_all add: single_bucket_nb)
  have pos: "0 < nbEvents (single_bucket h1 c1 n1)" "0 < nbEvents (single_bucket h2 c2 n2)"
    using nb n by (simp_all add: word_less_def)
  have "int c1 * int n2 < 2 ^ 20 * 2 ^ 20" "int c2 * int n1 < 2 ^ 20 * 2 ^ 20"
    using c n by (intro mult_strict_mono; simp)+
  then have mass: "cross_mass (single_bucket h1 c1 n1) (single_bucket h2 c2 n2) hashLog < 2 ^ 63"
    unfolding cross_mass_single [OF h c32 n64] by simp
  have nn: "int n1 * int n2 \<le> 2 ^ 20 * 2 ^ 20"
    by (intro mult_mono) (use n in simp_all)
  have "int n1 * int n2 * (14 + pen) \<le> (2 ^ 20 * 2 ^ 20) * 17"
    by (intro mult_mono nn) (use pen in simp_all)
  then have prod: "uint (nbEvents (single_bucket h1 c1 n1)) * uint (nbEvents (single_bucket h2 c2 n2)) * (14 + pen) < 2 ^ 64"
    unfolding nb by simp
  show ?thesis
    unfolding compareFingerprints_exact [OF h(3) pos pen(1) penalty_small [OF pen(2)] mass prod]
    by (simp only: spec_too_different_def spec_threshold_def nb spec_distance_single [OF h c32 n64])
qed

lemma spec_distance_sym: "spec_distance a b hashLog = spec_distance b a hashLog"
  unfolding spec_distance_def by (rule arg_cong [of _ _ sum_list], rule map_cong) (simp_all add: abs_minus_commute)

lemma cross_mass_sym: "cross_mass a b hashLog = cross_mass b a hashLog"
  unfolding cross_mass_def by (rule arg_cong [of _ _ sum_list], rule map_cong) (simp_all add: add.commute)

lemma pow_HASHLOG_MAX: "2 ^ HASHLOG_MAX = HASHTABLESIZE"
  by (simp add: HASHTABLESIZE_def)

lemma near_single_cell:
  assumes "near_single h N D fp" "b < HASHTABLESIZE"
  shows "0 \<le> uint (events fp ! b)" "uint (events fp ! b) \<le> N"
proof -
  show "0 \<le> uint (events fp ! b)" by simp
  have "uint (events fp ! b) \<le> events_total HASHLOG_MAX fp"
    unfolding events_total_def using assms(2) by (intro events_cell_le_total) (simp add: pow_HASHLOG_MAX)
  then show "uint (events fp ! b) \<le> N" using assms(1) by (simp add: near_single_def)
qed

text \<open>
  The distance between a fingerprint whose counters sum to its total and a fingerprint
  with all of its samples in one bucket.
\<close>

lemma near_single_distance:
  assumes ns: "near_single h N D fp" and h: "h < HASHTABLESIZE" and n: "n < 2 ^ 32"
  shows "spec_distance fp (single_bucket h n n) HASHLOG_MAX = 2 * int n * (N - uint (events fp ! h))"
    and "cross_mass fp (single_bucket h n n) HASHLOG_MAX = 2 * int n * N"
proof -
  let ?e = "\<lambda>b. uint (events fp ! b)"
  have n64: "n < 2 ^ 64" using n by (rule less_trans) simp
  have N: "uint (nbEvents fp) = N" "(\<Sum>b \<leftarrow> [0 ..< HASHTABLESIZE]. ?e b) = N"
    using ns by (simp_all add: near_single_def events_total_def pow_HASHLOG_MAX)
  have eh: "?e h \<le> N" by (rule near_single_cell [OF ns h])
  have t: "\<bar>?e b * uint (nbEvents (single_bucket h n n)) - uint (events (single_bucket h n n) ! b) * uint (nbEvents fp)\<bar>
           = int n * ?e b + (if b = h then int n * (N - 2 * ?e h) else 0)"
    if "b \<in> set [0 ..< HASHTABLESIZE]" for b
  proof -
    from that have b: "b < HASHTABLESIZE" by simp
    show ?thesis
    proof (cases "b = h")
      case True
      have "\<bar>?e h * int n - int n * N\<bar> = int n * (N - ?e h)"
      proof -
        have "?e h * int n - int n * N = - (int n * (N - ?e h))" by (simp add: algebra_simps)
        moreover have "0 \<le> int n * (N - ?e h)" using eh by simp
        ultimately show ?thesis by simp
      qed
      moreover have "uint (events (single_bucket h n n) ! h) = int n"
        using single_bucket_nth [OF h n, of h n] by simp
      ultimately show ?thesis
        unfolding True by (simp add: single_bucket_nb [OF n64] N algebra_simps)
    next
      case False
      then show ?thesis
        by (simp add: single_bucket_nth [OF b n] single_bucket_nb [OF n64] N abs_mult mult.commute)
    qed
  qed
  have "spec_distance fp (single_bucket h n n) HASHLOG_MAX
        = (\<Sum>b \<leftarrow> [0 ..< HASHTABLESIZE]. int n * ?e b + (if b = h then int n * (N - 2 * ?e h) else 0))"
    unfolding spec_distance_def pow_HASHLOG_MAX by (rule sum_list_cong) (rule t)
  also have "\<dots> = int n * N + int n * (N - 2 * ?e h)"
    using h by (simp add: sum_list_addf sum_list_const_mult N sum_list_upt_delta)
  finally show "spec_distance fp (single_bucket h n n) HASHLOG_MAX = 2 * int n * (N - ?e h)"
    by (simp add: algebra_simps)
  have m: "?e b * uint (nbEvents (single_bucket h n n)) + uint (events (single_bucket h n n) ! b) * uint (nbEvents fp)
           = int n * ?e b + (if b = h then int n * N else 0)"
    if "b \<in> set [0 ..< HASHTABLESIZE]" for b
    using that by (simp add: single_bucket_nth [OF _ n] single_bucket_nb [OF n64] N mult.commute)
  have "cross_mass fp (single_bucket h n n) HASHLOG_MAX
        = (\<Sum>b \<leftarrow> [0 ..< HASHTABLESIZE]. int n * ?e b + (if b = h then int n * N else 0))"
    unfolding cross_mass_def pow_HASHLOG_MAX by (rule sum_list_cong) (rule m)
  also have "\<dots> = int n * N + int n * N"
    using h by (simp add: sum_list_addf sum_list_const_mult N sum_list_upt_delta)
  finally show "cross_mass fp (single_bucket h n n) HASHLOG_MAX = 2 * int n * N" by simp
qed

lemma near_single_compare:
  assumes ns: "near_single h N D fp" and h: "h < HASHTABLESIZE"
    and n: "0 < n" "n < 2 ^ 20" and N: "0 < N" "N < 2 ^ 20" and pen: "0 \<le> pen" "pen \<le> 3"
    and thr: "2 * int n * D < N * int n * 14 div 16"
  shows "compareFingerprints fp (single_bucket h n n) pen HASHLOG_MAX = Some False"
    and "compareFingerprints (single_bucket h n n) fp pen HASHLOG_MAX = Some False"
proof -
  let ?s = "single_bucket h n n"
  have n32: "n < 2 ^ 32" using n(2) by (rule less_trans) simp
  have n64: "n < 2 ^ 64" using n(2) by (rule less_trans) simp
  have nbs: "uint (nbEvents ?s) = int n" by (rule single_bucket_nb [OF n64])
  have nbf: "uint (nbEvents fp) = N" using ns by (simp add: near_single_def)
  have pos: "0 < nbEvents ?s" "0 < nbEvents fp"
    using nbs nbf n N by (simp_all add: word_less_def)
  have d: "spec_distance fp ?s HASHLOG_MAX = 2 * int n * (N - uint (events fp ! h))"
    and m: "cross_mass fp ?s HASHLOG_MAX = 2 * int n * N"
    by (rule near_single_distance [OF ns h n32])+
  have nN: "int n * N \<le> 2 ^ 20 * 2 ^ 20"
    by (rule mult_mono) (use n N in simp_all)
  have mass: "cross_mass fp ?s HASHLOG_MAX < 2 ^ 63" "cross_mass ?s fp HASHLOG_MAX < 2 ^ 63"
    using nN unfolding cross_mass_sym [of ?s fp] m by (simp_all add: mult.commute)
  have "int n * N * (14 + pen) \<le> (2 ^ 20 * 2 ^ 20) * 17"
    by (rule mult_mono) (use nN n N pen in simp_all)
  then have prod: "uint (nbEvents fp) * uint (nbEvents ?s) * (14 + pen) < 2 ^ 64"
    "uint (nbEvents ?s) * uint (nbEvents fp) * (14 + pen) < 2 ^ 64"
    unfolding nbs nbf by (simp_all add: mult.commute)
  have "N - uint (events fp ! h) \<le> D" using ns by (simp add: near_single_def)
  then have "int n * (N - uint (events fp ! h)) \<le> int n * D"
    by (intro mult_left_mono) simp_all
  then have "spec_distance fp ?s HASHLOG_MAX \<le> 2 * int n * D" unfolding d by simp
  also have "\<dots> < N * int n * 14 div 16" by (rule thr)
  also have "\<dots> \<le> N * int n * (14 + pen) div 16"
    by (intro zdiv_mono1 mult_left_mono) (use pen n N in simp_all)
  finally have lt: "spec_distance fp ?s HASHLOG_MAX < N * int n * (14 + pen) div 16" .
  then have "\<not> spec_too_different fp ?s pen HASHLOG_MAX"
    by (simp add: spec_too_different_def spec_threshold_def nbs nbf)
  moreover have "\<not> spec_too_different ?s fp pen HASHLOG_MAX"
    using lt by (simp add: spec_too_different_def spec_threshold_def nbs nbf spec_distance_sym [of ?s fp] mult.commute)
  ultimately show "compareFingerprints fp ?s pen HASHLOG_MAX = Some False"
    "compareFingerprints ?s fp pen HASHLOG_MAX = Some False"
    using compareFingerprints_exact [OF order_refl pos(2,1) pen(1) penalty_small [OF pen(2)] mass(1) prod(1)]
      compareFingerprints_exact [OF order_refl pos(1,2) pen(1) penalty_small [OF pen(2)] mass(2) prod(2)]
    by simp_all
qed

lemma cross_mass_totals:
  "cross_mass a b hashLog
   = uint (nbEvents b) * events_total hashLog a + uint (nbEvents a) * events_total hashLog b"
  unfolding cross_mass_def events_total_def
  by (simp add: sum_list_addf sum_list_const_mult [symmetric] mult.commute)

text \<open>
  Claim C2, as amended. The specification computes the verdict over the integers. The
  code adds \<open>14 + penalty\<close> in the 32-bit type \<open>int\<close> and computes the rest in 64-bit
  arithmetic, and the two agree while nothing wraps: for \<open>hashLog \<le> 10\<close>, both totals
  positive and a penalty that is not negative and has \<open>14 + penalty \<le> INT_MAX\<close>
  (\<open>14 + penalty < 2 ^ 31\<close>), \<open>compareFingerprints\<close> returns "too different" exactly
  when the distance of the specification is at least its threshold, provided the cross
  products summed over the buckets stay below \<open>2 ^ 63\<close> and
  \<open>ref.totalSamples * cand.totalSamples * (14 + penalty)\<close> stays below \<open>2 ^ 64\<close>.
  Every comparison of \<open>ZSTD_splitBlock\<close> is within these bounds
  (\<open>splitBlock_comparisons_exact\<close> below).
\<close>

theorem comparator_matches_spec:
  assumes "hashLog \<le> HASHLOG_MAX" "0 < nbEvents ref" "0 < nbEvents cand"
    and "0 \<le> pen" "14 + pen < 2 ^ 31"
    and "cross_mass ref cand hashLog < 2 ^ 63"
    and "uint (nbEvents ref) * uint (nbEvents cand) * (14 + pen) < 2 ^ 64"
  shows "compareFingerprints ref cand pen hashLog
         = Some (uint (nbEvents ref) * uint (nbEvents cand) * (14 + pen) div 16
                 \<le> spec_distance ref cand hashLog)"
proof -
  have "compareFingerprints ref cand pen hashLog = Some (spec_too_different ref cand pen hashLog)"
    using assms by (rule compareFingerprints_exact)
  then show ?thesis by (simp only: spec_too_different_def spec_threshold_def)
qed

text \<open>
  The theorem at a reference of two level-1 chunks in bucket 3 and a candidate chunk in
  bucket 5, with penalty 2: the distance 2217120 is above the threshold 1107072, and the
  code answers "too different".
\<close>

theorem comparator_matches_spec_witness:
  "(9 :: nat) \<le> HASHLOG_MAX
   \<and> 0 < nbEvents (single_bucket 3 1490 1488) \<and> 0 < nbEvents (single_bucket 5 745 744)
   \<and> (0 :: int) \<le> 2 \<and> (14 :: int) + 2 < 2 ^ 31
   \<and> cross_mass (single_bucket 3 1490 1488) (single_bucket 5 745 744) 9 < 2 ^ 63
   \<and> uint (nbEvents (single_bucket 3 1490 1488)) * uint (nbEvents (single_bucket 5 745 744)) * (14 + 2) < 2 ^ 64
   \<and> spec_distance (single_bucket 3 1490 1488) (single_bucket 5 745 744) 9 = 2217120
   \<and> uint (nbEvents (single_bucket 3 1490 1488)) * uint (nbEvents (single_bucket 5 745 744)) * (14 + 2) div 16 = 1107072
   \<and> compareFingerprints (single_bucket 3 1490 1488) (single_bucket 5 745 744) 2 9 = Some True"
proof -
  have h: "(9 :: nat) \<le> HASHLOG_MAX" by (simp add: HASHLOG_MAX_def)
  have nb: "uint (nbEvents (single_bucket 3 1490 1488)) = 1488" "uint (nbEvents (single_bucket 5 745 744)) = 744"
    by (simp_all add: single_bucket_def)
  have p: "0 < nbEvents (single_bucket 3 1490 1488)" "0 < nbEvents (single_bucket 5 745 744)"
    by (simp_all add: single_bucket_def)
  have m: "cross_mass (single_bucket 3 1490 1488) (single_bucket 5 745 744) 9 = 2217120"
    using cross_mass_single [of 3 9 5 1490 745 1488 744] h by simp
  have d: "spec_distance (single_bucket 3 1490 1488) (single_bucket 5 745 744) 9 = 2217120"
    using spec_distance_single [of 3 9 5 1490 745 1488 744] h by simp
  have pr: "uint (nbEvents (single_bucket 3 1490 1488)) * uint (nbEvents (single_bucket 5 745 744)) * (14 + 2) < 2 ^ 64"
    unfolding nb by simp
  have mm: "cross_mass (single_bucket 3 1490 1488) (single_bucket 5 745 744) 9 < 2 ^ 63"
    unfolding m by simp
  have z: "(0 :: int) \<le> 2" "(14 :: int) + 2 < 2 ^ 31" by simp_all
  have t: "uint (nbEvents (single_bucket 3 1490 1488)) * uint (nbEvents (single_bucket 5 745 744)) * (14 + 2) div 16 = 1107072"
    unfolding nb by simp
  from comparator_matches_spec [OF h p z mm pr] have
    "compareFingerprints (single_bucket 3 1490 1488) (single_bucket 5 745 744) 2 9 = Some True"
    unfolding t d by simp
  with h p mm pr d t show ?thesis by simp
qed

text \<open>
  Claim C2, as stated, fails where the 64-bit product wraps. With both totals at
  \<open>2 ^ 32\<close> and all counters 0, the product of the totals is 0 in \<open>U64\<close>, the
  threshold is 0 and the code answers "too different", while over the integers the
  distance 0 is below the threshold \<open>2 ^ 64 * 14 / 16\<close>.
\<close>

theorem comparator_wraps_counterexample:
  "0 < nbEvents \<lparr>events = replicate 1024 0, nbEvents = 2 ^ 32\<rparr>
   \<and> compareFingerprints \<lparr>events = replicate 1024 0, nbEvents = 2 ^ 32\<rparr>
        \<lparr>events = replicate 1024 0, nbEvents = 2 ^ 32\<rparr> 0 10 = Some True
   \<and> \<not> spec_too_different \<lparr>events = replicate 1024 0, nbEvents = 2 ^ 32\<rparr>
        \<lparr>events = replicate 1024 0, nbEvents = 2 ^ 32\<rparr> 0 10"
proof -
  let ?F = "\<lparr>events = replicate 1024 (0 :: 32 word), nbEvents = (2 ^ 32 :: 64 word)\<rparr>"
  have "(replicate 1024 (0 :: 32 word))[0 := 0] = replicate 1024 0"
    by (subst list_update_same_conv) simp_all
  then have F: "?F = single_bucket 0 0 (2 ^ 32)"
    by (simp add: single_bucket_def HASHTABLESIZE_def HASHLOG_MAX_def)
  have h: "(10 :: nat) \<le> HASHLOG_MAX" by (simp add: HASHLOG_MAX_def)
  have m: "cross_mass ?F ?F 10 = 0"
    unfolding F using cross_mass_single [of 0 10 0 0 0 "2 ^ 32" "2 ^ 32"] h by simp
  have d: "spec_distance ?F ?F 10 = 0"
    unfolding F using spec_distance_single [of 0 10 0 0 0 "2 ^ 32" "2 ^ 32"] h by simp
  have "fpDistance ?F ?F 10 = Some 0"
    using fpDistance_exact [OF h, of ?F ?F] m d by simp
  then have "compareFingerprints ?F ?F 0 10 = Some True"
    by (simp add: compareFingerprints_def THRESHOLD_BASE_def THRESHOLD_PENALTY_RATE_def)
  moreover have "\<not> spec_too_different ?F ?F 0 10"
    using d by (simp add: spec_too_different_def spec_threshold_def)
  ultimately show ?thesis by simp
qed

text \<open>
  The bound \<open>14 + penalty < 2 ^ 31\<close> cannot be dropped. At the penalty \<open>INT_MAX\<close> the
  sum \<open>THRESHOLD_BASE + penalty\<close> wraps to a negative \<open>int\<close>, whose cast to \<open>U64\<close> is
  above \<open>2 ^ 63\<close>: with both totals 1 and one counter at \<open>2 ^ 28\<close> the code answers "not
  different", while over the integers the distance \<open>2 ^ 28\<close> is above the threshold
  \<open>(2 ^ 31 + 13) div 16\<close>. A penalty outside the type \<open>int\<close> is no argument at all.
\<close>

lemma compareFingerprints_int_sum_wraps:
  "compareFingerprints (single_bucket 0 (2 ^ 28) 1) (single_bucket 1 0 1) 2147483647 10 = Some False
   \<and> spec_too_different (single_bucket 0 (2 ^ 28) 1) (single_bucket 1 0 1) 2147483647 10"
proof -
  let ?A = "single_bucket 0 (2 ^ 28) 1" and ?B = "single_bucket 1 0 1"
  have h: "(10 :: nat) \<le> HASHLOG_MAX" by (simp add: HASHLOG_MAX_def)
  have m: "cross_mass ?A ?B 10 = 2 ^ 28"
    using cross_mass_single [of 0 10 1 "2 ^ 28" 0 1 1] h by simp
  have d: "spec_distance ?A ?B 10 = 2 ^ 28"
    using spec_distance_single [of 0 10 1 "2 ^ 28" 0 1 1] h by simp
  have "fpDistance ?A ?B 10 = Some (2 ^ 28)"
    using fpDistance_exact [OF h, of ?A ?B] m d by simp
  then have "compareFingerprints ?A ?B 2147483647 10 = Some False"
    by (simp add: compareFingerprints_def single_bucket_def THRESHOLD_BASE_def THRESHOLD_PENALTY_RATE_def)
  moreover have "spec_too_different ?A ?B 2147483647 10"
    using d by (simp add: spec_too_different_def spec_threshold_def single_bucket_def)
  ultimately show ?thesis by simp
qed

lemma compareFingerprints_not_int:
  "compareFingerprints ref cand (2 ^ 40) hashLog = None"
  by (simp add: compareFingerprints_def)

section \<open>The recorder\<close>

lemma records_fs_eq:
  "records_fs s fp src srcSize = recordFingerprint_generic fp src srcSize (samplingRates s) (hashParams s)"
  by (cases s)
     (simp_all add: ZSTD_recordFingerprint_1_def ZSTD_recordFingerprint_5_def ZSTD_recordFingerprint_11_def)

lemma samplingRates_bounds: "0 < samplingRates s" "samplingRates s \<le> 11"
  by (cases s; simp)+

lemma hashParams_bounds: "hashParams s \<le> HASHLOG_MAX" "9 \<le> hashParams s"
  by (cases s; simp add: HASHLOG_MAX_def)+

lemma records_fs_CHUNK:
  assumes "CHUNKSIZE \<le> length src"
  shows "records_fs s fp src CHUNKSIZE =
    Some \<lparr>events = addEvents_loop (replicate (2 ^ hashParams s) 0 @ drop (2 ^ hashParams s) (events fp))
                      src (CHUNKSIZE - 1) (samplingRates s) (hashParams s) 0,
          nbEvents = of_nat ((CHUNKSIZE - 1) div samplingRates s)\<rparr>"
  using assms samplingRates_bounds [of s] hashParams_bounds [of s]
  by (simp add: records_fs_eq recordFingerprint_generic_def addEvents_generic_def HASHLENGTH_def CHUNKSIZE_def)

lemma chunk_nbEvents_bounds:
  "0 < (CHUNKSIZE - 1) div samplingRates s" "(CHUNKSIZE - 1) div samplingRates s < CHUNKSIZE"
  by (cases s; simp add: CHUNKSIZE_def)+

lemma hash2_less:
  assumes "hashLog \<le> 32"
  shows "unat (hash2 p n hashLog) < 2 ^ hashLog"
proof -
  let ?w = "(ucast (MEM_read16 p n) :: 32 word) * KNUTH"
  have "unat ?w < 2 ^ 32" using unsigned_less [of ?w] by simp
  also have "(2::nat) ^ 32 = 2 ^ hashLog * 2 ^ (32 - hashLog)"
    using assms by (simp flip: power_add)
  finally have "unat ?w div 2 ^ (32 - hashLog) < 2 ^ hashLog"
    by (rule less_mult_imp_div_less)
  then show ?thesis
    by (subst hash2_def, subst unat_drop_bit_eq) (simp only: drop_bit_eq_div)
qed

lemma hash2_window: "p ! n = a \<Longrightarrow> p ! (n + 1) = b \<Longrightarrow> hash2 p n hashLog = hash2 [a, b] 0 hashLog"
  by (simp add: hash2_def MEM_read16_def)

lemma addEvents_loop_length [simp]:
  "length (addEvents_loop ev p limit samplingRate hashLog n) = length ev"
proof (induction ev p limit samplingRate hashLog n rule: addEvents_loop.induct)
  case (1 ev p limit samplingRate hashLog n)
  then show ?case by (simp add: addEvents_loop.simps [of ev _ _ _ _ n])
qed

lemma nbSamples_add: "0 < r \<Longrightarrow> nbSamples (d + r) r = Suc (nbSamples d r)"
proof -
  assume r: "0 < r"
  then have "d + r + r - 1 = (d + r - 1) + r" by arith
  then have "(d + r + r - 1) div r = (d + r - 1) div r + 1"
    using r by (simp only: div_add_self2) 
  then show ?thesis by (simp only: nbSamples_def Suc_eq_plus1)
qed

lemma nbSamples_small: "0 < d \<Longrightarrow> d \<le> r \<Longrightarrow> nbSamples d r = 1"
  unfolding nbSamples_def by (rule div_nat_eqI) arith+

lemma nbSamples_0: "0 < r \<Longrightarrow> nbSamples 0 r = 0"
  by (simp add: nbSamples_def)

lemma nbSamples_step:
  assumes "n < limit" "0 < r"
  shows "nbSamples (limit - n) r = Suc (nbSamples (limit - (n + r)) r)"
proof (cases "n + r \<le> limit")
  case True
  then have "limit - n = (limit - (n + r)) + r" by arith
  then show ?thesis using nbSamples_add [OF assms(2), of "limit - (n + r)"] by (simp only:)
next
  case False
  then have "limit - (n + r) = 0" "0 < limit - n" "limit - n \<le> r"
    using assms by arith+
  then show ?thesis using nbSamples_small [of "limit - n" r] nbSamples_0 [OF assms(2)] by (simp only:)
qed

lemma addEvents_loop_const:
  assumes "0 < samplingRate" "h < length ev"
    and "\<And>j. n + j * samplingRate < limit \<Longrightarrow> unat (hash2 p (n + j * samplingRate) hashLog) = h"
  shows "addEvents_loop ev p limit samplingRate hashLog n
         = ev[h := ev ! h + of_nat (nbSamples (limit - n) samplingRate)]"
  using assms
proof (induction ev p limit samplingRate hashLog n rule: addEvents_loop.induct)
  case (1 ev p limit samplingRate hashLog n)
  show ?case
  proof (cases "n < limit")
    case False
    then have "nbSamples (limit - n) samplingRate = 0"
      using "1.prems"(1) by (simp add: nbSamples_def)
    with False show ?thesis by (simp add: addEvents_loop.simps [of ev _ _ _ _ n])
  next
    case True
    have h0: "unat (hash2 p n hashLog) = h" using "1.prems"(3) [of 0] True by simp
    let ?ev = "ev[h := ev ! h + 1]"
    have "addEvents_loop ?ev p limit samplingRate hashLog (n + samplingRate)
         = ?ev[h := ?ev ! h + of_nat (nbSamples (limit - (n + samplingRate)) samplingRate)]"
    proof (rule "1.IH" [unfolded h0])
      show "n < limit \<and> 0 < samplingRate" using True "1.prems"(1) by simp
      show "0 < samplingRate" by fact
      show "h < length ?ev" using "1.prems"(2) by simp
      fix j assume "n + samplingRate + j * samplingRate < limit"
      then show "unat (hash2 p (n + samplingRate + j * samplingRate) hashLog) = h"
        using "1.prems"(3) [of "Suc j"] by (simp add: add.assoc)
    qed
    then show ?thesis
      using True "1.prems"(1,2) h0 nbSamples_step [OF True "1.prems"(1)]
      by (simp add: addEvents_loop.simps [of ev _ _ _ _ n] add.assoc)
  qed
qed

lemma chunk_hits_eq:
  "chunk_hits s = (case s of split_lvl1 \<Rightarrow> 745 | split_lvl2 \<Rightarrow> 1639 | split_lvl3 \<Rightarrow> 8191)"
  by (cases s) (simp_all add: chunk_hits_def nbSamples_def CHUNKSIZE_def)

lemma chunk_nb_eq:
  "chunk_nb s = (case s of split_lvl1 \<Rightarrow> 744 | split_lvl2 \<Rightarrow> 1638 | split_lvl3 \<Rightarrow> 8191)"
  by (cases s) (simp_all add: chunk_nb_def CHUNKSIZE_def)

lemma chunk_counts_bounds:
  "0 < chunk_nb s" "chunk_nb s \<le> chunk_hits s" "chunk_hits s < CHUNKSIZE"
  by (cases s; simp add: chunk_nb_eq chunk_hits_eq CHUNKSIZE_def)+

lemma bucket_less: "bucket s a b < 2 ^ hashParams s"
  unfolding bucket_def using hashParams_bounds(1) [of s]
  by (intro hash2_less) (simp add: HASHLOG_MAX_def)

lemma pow_hashParams_le: "2 ^ hashParams s \<le> HASHTABLESIZE"
  using hashParams_bounds(1) [of s] by (simp add: HASHTABLESIZE_def)

lemma bucket_less_size: "bucket s a b < HASHTABLESIZE"
  using bucket_less [of s a b] pow_hashParams_le [of s] by simp

lemma clean_tail_zeroed: "hashLog \<le> HASHLOG_MAX \<Longrightarrow> clean_tail hashLog zeroed_Fingerprint"
  by (simp add: clean_tail_def zeroed_Fingerprint_def)

lemma clean_tail_single: "h < 2 ^ hashLog \<Longrightarrow> clean_tail hashLog (single_bucket h cnt nb)"
  by (simp add: clean_tail_def single_bucket_def)

lemma clean_tail_reset:
  assumes "clean_tail hashLog fp" "hashLog \<le> HASHLOG_MAX"
  shows "replicate (2 ^ hashLog) 0 @ drop (2 ^ hashLog) (events fp) = replicate HASHTABLESIZE 0"
proof -
  have "(2::nat) ^ hashLog \<le> HASHTABLESIZE"
    using assms(2) by (simp add: HASHTABLESIZE_def)
  then have "2 ^ hashLog + (HASHTABLESIZE - 2 ^ hashLog) = HASHTABLESIZE" by simp
  then show ?thesis
    using assms(1) by (simp add: clean_tail_def flip: replicate_add)
qed

text \<open>A chunk whose sampled windows all fall into one bucket.\<close>

lemma records_fs_one_bucket:
  assumes len: "CHUNKSIZE \<le> length src"
    and clean: "clean_tail (hashParams s) fp"
    and win: "\<And>j. j * samplingRates s < CHUNKSIZE - 1 \<Longrightarrow>
               unat (hash2 src (j * samplingRates s) (hashParams s)) = h"
    and h: "h < HASHTABLESIZE"
  shows "records_fs s fp src CHUNKSIZE = Some (single_bucket h (chunk_hits s) (chunk_nb s))"
proof -
  let ?Z = "replicate HASHTABLESIZE (0 :: 32 word)"
  have "addEvents_loop ?Z src (CHUNKSIZE - 1) (samplingRates s) (hashParams s) 0
        = ?Z[h := ?Z ! h + of_nat (nbSamples (CHUNKSIZE - 1 - 0) (samplingRates s))]"
    using samplingRates_bounds(1) [of s] h win by (intro addEvents_loop_const) simp_all
  also have "\<dots> = ?Z[h := of_nat (chunk_hits s)]"
    using h by (simp add: chunk_hits_def)
  finally show ?thesis
    using records_fs_CHUNK [OF len, of s fp] clean_tail_reset [OF clean hashParams_bounds(1)]
    by (simp add: single_bucket_def chunk_nb_def)
qed

lemma records_fs_uniform:
  assumes len: "CHUNKSIZE \<le> length src"
    and clean: "clean_tail (hashParams s) fp"
    and uni: "\<And>i. i < CHUNKSIZE \<Longrightarrow> src ! i = c"
  shows "records_fs s fp src CHUNKSIZE = Some (single_bucket (bucket s c c) (chunk_hits s) (chunk_nb s))"
proof (rule records_fs_one_bucket [OF len clean _ bucket_less_size])
  fix j assume j: "j * samplingRates s < CHUNKSIZE - 1"
  then have "j * samplingRates s < CHUNKSIZE" "j * samplingRates s + 1 < CHUNKSIZE" by arith+
  then have "src ! (j * samplingRates s) = c" "src ! (j * samplingRates s + 1) = c"
    using uni by blast+
  then have "hash2 src (j * samplingRates s) (hashParams s) = hash2 [c, c] 0 (hashParams s)"
    by (rule hash2_window)
  then show "unat (hash2 src (j * samplingRates s) (hashParams s)) = bucket s c c"
    unfolding bucket_def by (rule arg_cong)
qed

text \<open>Every turn of the sampling loop adds one to the sum of the counters.\<close>

lemma addEvents_loop_total:
  assumes "0 < samplingRate" "2 ^ hashLog \<le> length ev" "hashLog \<le> 32"
    and "(\<Sum>b \<leftarrow> [0 ..< 2 ^ hashLog]. uint (ev ! b)) + int (nbSamples (limit - n) samplingRate) < 2 ^ 32"
  shows "(\<Sum>b \<leftarrow> [0 ..< 2 ^ hashLog]. uint (addEvents_loop ev p limit samplingRate hashLog n ! b))
         = (\<Sum>b \<leftarrow> [0 ..< 2 ^ hashLog]. uint (ev ! b)) + int (nbSamples (limit - n) samplingRate)"
  using assms
proof (induction ev p limit samplingRate hashLog n rule: addEvents_loop.induct)
  case (1 ev p limit samplingRate hashLog n)
  show ?case
  proof (cases "n < limit")
    case False
    then have "nbSamples (limit - n) samplingRate = 0"
      using "1.prems"(1) by (simp add: nbSamples_def)
    with False show ?thesis by (simp add: addEvents_loop.simps [of ev _ _ _ _ n])
  next
    case True
    let ?h = "unat (hash2 p n hashLog)"
    let ?ev = "ev[?h := ev ! ?h + 1]"
    let ?tot = "\<lambda>ev. \<Sum>b \<leftarrow> [0 ..< 2 ^ hashLog]. uint (ev ! b)"
    have h: "?h < 2 ^ hashLog" by (rule hash2_less [OF "1.prems"(3)])
    have st: "nbSamples (limit - n) samplingRate = Suc (nbSamples (limit - (n + samplingRate)) samplingRate)"
      by (rule nbSamples_step [OF True "1.prems"(1)])
    have "uint (ev ! ?h) \<le> ?tot ev" by (rule events_cell_le_total [OF h])
    then have "uint (ev ! ?h) + 1 < 2 ^ 32" using "1.prems"(4) st by simp
    then have cell: "uint (?ev ! ?h) = uint (ev ! ?h) + 1"
      using h "1.prems"(2) by (simp add: uint_succ32)
    have bump: "?tot ?ev = ?tot ev + 1"
      using h cell "1.prems"(2) by (intro sum_list_upt_bump [of ?h]) simp_all
    have "?tot (addEvents_loop ?ev p limit samplingRate hashLog (n + samplingRate))
          = ?tot ?ev + int (nbSamples (limit - (n + samplingRate)) samplingRate)"
      using True "1.prems" bump st by (intro "1.IH") simp_all
    then show ?thesis
      using True "1.prems"(1) bump st by (simp add: addEvents_loop.simps [of ev _ _ _ _ n])
  qed
qed

lemma nbSamples_formula: "2 \<le> srcSize \<Longrightarrow> 0 < r \<Longrightarrow> nbSamples (srcSize - 1) r = (srcSize - 2) div r + 1"
proof -
  assume a: "2 \<le> srcSize" "0 < r"
  then have "srcSize - 1 + r - 1 = (srcSize - 2) + r" by arith
  then show ?thesis using a by (simp only: nbSamples_def div_add_self2)
qed

text \<open>What one recording pass leaves in the fingerprint.\<close>

lemma recordFingerprint_generic_counts:
  assumes "HASHLENGTH \<le> srcSize" "srcSize \<le> length src" "srcSize < 2 ^ 32"
    and "0 < samplingRate" "samplingRate < 2 ^ 32" "hashLog \<le> HASHLOG_MAX" "wf_Fingerprint fp"
    and "1 \<le> hashLog"
  shows "\<exists>fp'. recordFingerprint_generic fp src srcSize samplingRate hashLog = Some fp'
           \<and> wf_Fingerprint fp'
           \<and> events_total hashLog fp' = int ((srcSize - 2) div samplingRate + 1)
           \<and> uint (nbEvents fp') = int ((srcSize - 1) div samplingRate)"
proof -
  let ?ev = "replicate (2 ^ hashLog) (0 :: 32 word) @ drop (2 ^ hashLog) (events fp)"
  let ?limit = "srcSize - HASHLENGTH + 1"
  have le: "(2 :: nat) ^ hashLog \<le> HASHTABLESIZE"
    using assms(6) by (simp add: HASHTABLESIZE_def)
  have len: "length ?ev = HASHTABLESIZE" using le assms(7) by (simp add: wf_Fingerprint_def)
  have lim: "?limit = srcSize - 1" using assms(1) by (simp add: HASHLENGTH_def)
  have zero: "(\<Sum>b \<leftarrow> [0 ..< 2 ^ hashLog]. uint (?ev ! b)) = 0"
    by (rule sum_list_map_zero) (simp add: nth_append)
  have ns: "nbSamples (srcSize - 1) samplingRate = (srcSize - 2) div samplingRate + 1"
    using assms(1,4) by (intro nbSamples_formula) (simp_all add: HASHLENGTH_def)
  have "(srcSize - 2) div samplingRate \<le> srcSize - 2" by (rule div_le_dividend)
  moreover have "2 \<le> srcSize" using assms(1) by (simp add: HASHLENGTH_def)
  ultimately have "(srcSize - 2) div samplingRate + 1 \<le> srcSize" by arith
  then have small: "int (nbSamples (srcSize - 1 - 0) samplingRate) < 2 ^ 32"
    using assms(3) ns by simp
  have tot: "(\<Sum>b \<leftarrow> [0 ..< 2 ^ hashLog]. uint (addEvents_loop ?ev src (srcSize - 1) samplingRate hashLog 0 ! b))
        = int (nbSamples (srcSize - 1 - 0) samplingRate)"
    using addEvents_loop_total [of samplingRate hashLog ?ev "srcSize - 1" 0 src] assms(4,6) le len zero small
    by (simp add: HASHLOG_MAX_def)
  have "(srcSize - 1) div samplingRate \<le> srcSize - 1" by (rule div_le_dividend)
  then have "(srcSize - 1) div samplingRate \<le> srcSize" by arith
  then have nb: "uint (of_nat ((srcSize - 1) div samplingRate) :: 64 word) = int ((srcSize - 1) div samplingRate)"
    using assms(3) by (intro uint_of_nat64) simp
  let ?fp' = "fp\<lparr>events := addEvents_loop ?ev src (srcSize - 1) samplingRate hashLog 0,
                    nbEvents := of_nat ((srcSize - 1) div samplingRate)\<rparr>"
  have "recordFingerprint_generic fp src srcSize samplingRate hashLog = Some ?fp'"
    using assms lim by (simp add: recordFingerprint_generic_def addEvents_generic_def Let_def)
  moreover have "wf_Fingerprint ?fp'" using len by (simp add: wf_Fingerprint_def)
  moreover have "events_total hashLog ?fp' = int ((srcSize - 2) div samplingRate + 1)"
    using tot ns by (simp add: events_total_def)
  moreover have "uint (nbEvents ?fp') = int ((srcSize - 1) div samplingRate)"
    using nb by simp
  ultimately show ?thesis by blast
qed

lemma events_total_single:
  assumes "h < 2 ^ hashLog" "hashLog \<le> HASHLOG_MAX" "c < 2 ^ 32"
  shows "events_total hashLog (single_bucket h c n) = int c"
proof -
  have le: "(2::nat) ^ hashLog \<le> HASHTABLESIZE"
    using assms(2) by (simp add: HASHTABLESIZE_def)
  have f: "uint (events (single_bucket h c n) ! b) = (if b = h then int c else 0)" if "b < 2 ^ hashLog" for b
    using single_bucket_nth [OF less_le_trans [OF that le] assms(3)] .
  have "(\<Sum>b \<leftarrow> [0 ..< 2 ^ hashLog]. uint (events (single_bucket h c n) ! b))
        = (if h = h then uint (events (single_bucket h c n) ! h) else
             uint (events (single_bucket h c n) ! h) + uint (events (single_bucket h c n) ! h))"
    using assms(1) by (intro sum_list_upt_two) (simp_all add: f)
  then show ?thesis unfolding events_total_def by (simp add: f [OF assms(1)])
qed

lemma bucket_zero: "bucket s 0 0 = 0"
  by (cases s) (simp_all add: bucket_def hash2_def MEM_read16_def KNUTH_def)

lemma record_zero_chunk:
  "records_fs s zeroed_Fingerprint (replicate 8192 0) 8192 = Some (single_bucket 0 (chunk_hits s) (chunk_nb s))"
  using records_fs_uniform [of "replicate 8192 0" s zeroed_Fingerprint 0]
    clean_tail_zeroed [OF hashParams_bounds(1), of s]
  by (simp add: CHUNKSIZE_def bucket_zero)

lemma wf_zeroed: "wf_Fingerprint zeroed_Fingerprint"
  by (simp add: wf_Fingerprint_def zeroed_Fingerprint_def)

lemma samples_in_finite:
  assumes "0 < samplingRate"
  shows "finite (samples_in p limit samplingRate hashLog n b)"
proof (rule finite_subset)
  show "samples_in p limit samplingRate hashLog n b \<subseteq> {..< limit}"
  proof
    fix j assume "j \<in> samples_in p limit samplingRate hashLog n b"
    then have "n + j * samplingRate < limit" by (simp add: samples_in_def)
    moreover have "j * 1 \<le> j * samplingRate" using assms by (intro mult_le_mono2) simp
    then have "j \<le> j * samplingRate" by (simp only: mult_1_right)
    ultimately have "j < limit" by arith
    then show "j \<in> {..< limit}" by simp
  qed
qed simp

lemma samples_in_step:
  assumes "n < limit"
  shows "samples_in p limit samplingRate hashLog n b
         = (if unat (hash2 p n hashLog) = b then {0} else {})
           \<union> Suc ` samples_in p limit samplingRate hashLog (n + samplingRate) b"
proof (rule set_eqI)
  fix j
  show "j \<in> samples_in p limit samplingRate hashLog n b
        \<longleftrightarrow> j \<in> (if unat (hash2 p n hashLog) = b then {0} else {})
              \<union> Suc ` samples_in p limit samplingRate hashLog (n + samplingRate) b"
  proof (cases j)
    case 0
    with assms show ?thesis by (auto simp: samples_in_def)
  next
    case (Suc i)
    have "n + Suc i * samplingRate = n + samplingRate + i * samplingRate" by simp
    then show ?thesis unfolding Suc samples_in_def by (auto simp only: image_iff mem_Collect_eq split: if_splits)
  qed
qed

lemma samples_in_card_step:
  assumes "n < limit" "0 < samplingRate"
  shows "card (samples_in p limit samplingRate hashLog n b)
         = (if unat (hash2 p n hashLog) = b then 1 else 0)
           + card (samples_in p limit samplingRate hashLog (n + samplingRate) b)"
proof -
  let ?S' = "samples_in p limit samplingRate hashLog (n + samplingRate) b"
  have fin: "finite (Suc ` ?S')" using samples_in_finite [OF assms(2)] by simp
  have c: "card (Suc ` ?S') = card ?S'" by (rule card_image) simp
  have "0 \<notin> Suc ` ?S'" by auto
  then have "card ({0} \<union> Suc ` ?S') = 1 + card (Suc ` ?S')"
    using fin by simp
  then show ?thesis unfolding samples_in_step [OF assms(1)] using c by simp
qed

text \<open>Each counter grows by the number of samples that fall into its bucket.\<close>

lemma addEvents_loop_cell:
  assumes "0 < samplingRate" "b < length ev"
    and "uint (ev ! b) + int (nbSamples (limit - n) samplingRate) < 2 ^ 32"
  shows "uint (addEvents_loop ev p limit samplingRate hashLog n ! b)
         = uint (ev ! b) + int (card (samples_in p limit samplingRate hashLog n b))"
  using assms
proof (induction ev p limit samplingRate hashLog n rule: addEvents_loop.induct)
  case (1 ev p limit samplingRate hashLog n)
  show ?case
  proof (cases "n < limit")
    case False
    then have "samples_in p limit samplingRate hashLog n b = {}"
      by (auto simp: samples_in_def)
    with False show ?thesis by (simp add: addEvents_loop.simps [of ev _ _ _ _ n])
  next
    case True
    let ?h = "unat (hash2 p n hashLog)"
    let ?ev = "ev[?h := ev ! ?h + 1]"
    have st: "nbSamples (limit - n) samplingRate = Suc (nbSamples (limit - (n + samplingRate)) samplingRate)"
      by (rule nbSamples_step [OF True "1.prems"(1)])
    have cell: "uint (?ev ! b) = uint (ev ! b) + (if ?h = b then 1 else 0)"
    proof (cases "?h = b")
      case True
      have "uint (ev ! b) + 1 < 2 ^ 32" using "1.prems"(3) st by simp
      then show ?thesis using True "1.prems"(2) by (simp add: uint_succ32)
    next
      case False
      then show ?thesis by simp
    qed
    have "uint (addEvents_loop ?ev p limit samplingRate hashLog (n + samplingRate) ! b)
          = uint (?ev ! b) + int (card (samples_in p limit samplingRate hashLog (n + samplingRate) b))"
      using True "1.prems" cell st by (intro "1.IH") simp_all
    then show ?thesis
      using True "1.prems"(1) cell samples_in_card_step [OF True "1.prems"(1), of p hashLog b]
      by (simp add: addEvents_loop.simps [of ev _ _ _ _ n])
  qed
qed

lemma hash2_coarsen: "unat (hash2 p n 9) = unat (hash2 p n 10) div 2"
proof -
  let ?w = "(ucast (MEM_read16 p n) :: 32 word) * KNUTH"
  have "unat (hash2 p n 9) = unat ?w div 2 ^ 23" "unat (hash2 p n 10) = unat ?w div 2 ^ 22"
    by (subst hash2_def, subst unat_drop_bit_eq, simp only: drop_bit_eq_div, simp)+
  moreover have "unat ?w div 2 ^ 23 = unat ?w div 2 ^ 22 div 2"
    by (simp add: div_mult2_eq [symmetric])
  ultimately show ?thesis by simp
qed

lemma samples_in_refine:
  "card (samples_in src limit 11 9 0 b)
   \<le> card (samples_in src limit 1 10 0 (2 * b)) + card (samples_in src limit 1 10 0 (2 * b + 1))"
proof -
  let ?S = "samples_in src limit 11 9 0 b"
  let ?A = "samples_in src limit 1 10 0 (2 * b)" and ?B = "samples_in src limit 1 10 0 (2 * b + 1)"
  have fin: "finite ?A" "finite ?B" by (rule samples_in_finite; simp)+
  have "?A \<inter> ?B = {}" by (auto simp: samples_in_def)
  then have u: "card (?A \<union> ?B) = card ?A + card ?B"
    using fin by (intro card_Un_disjoint)
  have sub: "(\<lambda>j. j * 11) ` ?S \<subseteq> ?A \<union> ?B"
  proof
    fix m assume "m \<in> (\<lambda>j. j * 11) ` ?S"
    then obtain j where j: "m = j * 11" "j * 11 < limit" "unat (hash2 src (j * 11) 9) = b"
      by (auto simp: samples_in_def)
    from j(3) have "unat (hash2 src m 10) div 2 = b" unfolding j(1) by (simp only: hash2_coarsen)
    then have "unat (hash2 src m 10) = 2 * b \<or> unat (hash2 src m 10) = 2 * b + 1" by arith
    with j(1,2) show "m \<in> ?A \<union> ?B" by (auto simp: samples_in_def)
  qed
  have "card ?S = card ((\<lambda>j. j * 11) ` ?S)"
    by (rule card_image [symmetric]) (simp add: inj_on_def)
  also have "\<dots> \<le> card (?A \<union> ?B)"
    using fin sub by (intro card_mono) simp_all
  finally show ?thesis using u by simp
qed

lemma reset_cell:
  "b < 2 ^ hashLog \<Longrightarrow> (replicate (2 ^ hashLog) (0 :: 32 word) @ xs) ! b = 0"
  by (simp add: nth_append)

text \<open>The counters of a freshly recorded chunk, as numbers of samples.\<close>

lemma records_fs_cell:
  assumes "CHUNKSIZE \<le> length src" "b < 2 ^ hashParams s"
  shows "\<exists>F. records_fs s fp src CHUNKSIZE = Some F
           \<and> uint (events F ! b)
             = int (card (samples_in src (CHUNKSIZE - 1) (samplingRates s) (hashParams s) 0 b))"
proof -
  let ?ev = "replicate (2 ^ hashParams s) (0 :: 32 word) @ drop (2 ^ hashParams s) (events fp)"
  have "nbSamples (CHUNKSIZE - 1 - 0) (samplingRates s) < CHUNKSIZE"
    using chunk_counts_bounds(3) [of s] by (simp add: chunk_hits_def)
  then have "uint (?ev ! b) + int (nbSamples (CHUNKSIZE - 1 - 0) (samplingRates s)) < 2 ^ 32"
    using assms(2) by (simp add: reset_cell CHUNKSIZE_def)
  then have "uint (addEvents_loop ?ev src (CHUNKSIZE - 1) (samplingRates s) (hashParams s) 0 ! b)
        = uint (?ev ! b) + int (card (samples_in src (CHUNKSIZE - 1) (samplingRates s) (hashParams s) 0 b))"
    using assms(2) samplingRates_bounds(1) [of s] by (intro addEvents_loop_cell) simp_all
  then show ?thesis
    using records_fs_CHUNK [OF assms(1), of s fp] assms(2) by (simp add: reset_cell)
qed

text \<open>
  Claim C3. The sum of the counters of a freshly recorded fingerprint is the number of
  samples taken, \<open>(srcSize - 2) div rate + 1\<close>, but \<open>nbEvents\<close> is set to
  \<open>(srcSize - 1) div rate\<close>, which is one less whenever the stride does not divide
  \<open>srcSize - 1\<close>. On a chunk of 8192 zero bytes, level 2 takes 1639 samples and books
  1638, and level 1 takes 745 and books 744.
\<close>

theorem nbEvents_misses_last_sample:
  "ZSTD_recordFingerprint_5 zeroed_Fingerprint (replicate 8192 0) 8192 = Some (single_bucket 0 1639 1638)
   \<and> events_total 10 (single_bucket 0 1639 1638) = 1639
   \<and> uint (nbEvents (single_bucket 0 1639 1638)) = 1638
   \<and> ZSTD_recordFingerprint_11 zeroed_Fingerprint (replicate 8192 0) 8192 = Some (single_bucket 0 745 744)
   \<and> events_total 9 (single_bucket 0 745 744) = 745
   \<and> uint (nbEvents (single_bucket 0 745 744)) = 744"
proof -
  have "ZSTD_recordFingerprint_5 zeroed_Fingerprint (replicate 8192 0) 8192 = Some (single_bucket 0 1639 1638)"
    using record_zero_chunk [of split_lvl2] by (simp add: chunk_hits_eq chunk_nb_eq)
  moreover have "ZSTD_recordFingerprint_11 zeroed_Fingerprint (replicate 8192 0) 8192 = Some (single_bucket 0 745 744)"
    using record_zero_chunk [of split_lvl1] by (simp add: chunk_hits_eq chunk_nb_eq)
  moreover have "events_total 10 (single_bucket 0 1639 1638) = 1639" "events_total 9 (single_bucket 0 745 744) = 745"
    using events_total_single [of 0 10 1639 1638] events_total_single [of 0 9 745 744]
    by (simp_all add: HASHLOG_MAX_def)
  moreover have "uint (nbEvents (single_bucket 0 1639 1638)) = 1638" "uint (nbEvents (single_bucket 0 745 744)) = 744"
    using single_bucket_nb [of 1638 0 1639] single_bucket_nb [of 744 0 745] by simp_all
  ultimately show ?thesis by simp
qed

text \<open>
  Claim C4, as amended. For \<open>srcSize \<ge> 2\<close> and a stride of at least 1 (both below
  \<open>2 ^ 32\<close>) and \<open>1 \<le> hashLog \<le> 10\<close> (with \<open>hashLog = 0\<close> the shift of \<open>hash2\<close> is
  undefined and there is no result), a recording pass takes exactly
  \<open>(srcSize - 2) div rate + 1\<close> samples,
  one per offset \<open>0, rate, 2 * rate, \<dots>\<close> up to \<open>srcSize - 2\<close>: this is the sum of the
  counters afterwards, each turn of the loop adding one to one counter. When the stride
  divides \<open>srcSize - 1\<close>, as the stride 1 does, \<open>nbEvents\<close> is set to this number.
\<close>

theorem recording_sample_count:
  assumes "HASHLENGTH \<le> srcSize" "srcSize \<le> length src" "srcSize < 2 ^ 32"
    and "0 < samplingRate" "samplingRate < 2 ^ 32" "hashLog \<le> HASHLOG_MAX" "wf_Fingerprint fp"
    and "1 \<le> hashLog"
  shows "\<exists>fp'. recordFingerprint_generic fp src srcSize samplingRate hashLog = Some fp'
           \<and> events_total hashLog fp' = int ((srcSize - 2) div samplingRate + 1)
           \<and> (samplingRate dvd srcSize - 1 \<longrightarrow>
                uint (nbEvents fp') = int ((srcSize - 2) div samplingRate + 1))"
proof -
  obtain fp' where fp': "recordFingerprint_generic fp src srcSize samplingRate hashLog = Some fp'"
    "events_total hashLog fp' = int ((srcSize - 2) div samplingRate + 1)"
    "uint (nbEvents fp') = int ((srcSize - 1) div samplingRate)"
    using recordFingerprint_generic_counts [OF assms] by blast
  have "(srcSize - 1) div samplingRate = (srcSize - 2) div samplingRate + 1"
    if "samplingRate dvd srcSize - 1"
  proof -
    have "0 < srcSize - 1" using assms(1) by (simp add: HASHLENGTH_def)
    from dvd_div_pred [OF that this] show ?thesis by (simp add: numeral_2_eq_2)
  qed
  with fp' show ?thesis by auto
qed

text \<open>The theorem at a chunk of 8192 zero bytes, recorded with stride 1 and 10 bits.\<close>

theorem recording_sample_count_witness:
  "HASHLENGTH \<le> 8192 \<and> 8192 \<le> length (replicate 8192 (0 :: 8 word)) \<and> (8192 :: nat) < 2 ^ 32
   \<and> (0 :: nat) < 1 \<and> (1 :: nat) < 2 ^ 32 \<and> 10 \<le> HASHLOG_MAX \<and> wf_Fingerprint zeroed_Fingerprint
   \<and> (1 :: nat) \<le> 10 \<and> (1 :: nat) dvd 8192 - 1
   \<and> recordFingerprint_generic zeroed_Fingerprint (replicate 8192 0) 8192 1 10 = Some (single_bucket 0 8191 8191)
   \<and> events_total 10 (single_bucket 0 8191 8191) = 8191
   \<and> uint (nbEvents (single_bucket 0 8191 8191)) = 8191"
proof -
  have h: "HASHLENGTH \<le> 8192" "8192 \<le> length (replicate 8192 (0 :: 8 word))" "(8192 :: nat) < 2 ^ 32"
    "(0 :: nat) < 1" "(1 :: nat) < 2 ^ 32" "10 \<le> HASHLOG_MAX" "wf_Fingerprint zeroed_Fingerprint"
    "(1 :: nat) \<le> 10"
    by (simp_all add: HASHLENGTH_def HASHLOG_MAX_def wf_Fingerprint_def zeroed_Fingerprint_def)
  have r: "recordFingerprint_generic zeroed_Fingerprint (replicate 8192 0) 8192 1 10 = Some (single_bucket 0 8191 8191)"
    using record_zero_chunk [of split_lvl3]
    by (simp add: ZSTD_recordFingerprint_1_def chunk_hits_eq chunk_nb_eq)
  from recording_sample_count [OF h] r h show ?thesis by simp
qed

text \<open>
  Claim C4, as stated, gives \<open>(srcSize - 1) div rate + 1\<close> for \<open>nbEvents\<close> and for the
  number of samples. At level 3 a chunk of 8192 bytes has 8191 window positions: 8191
  samples are taken and booked, not 8192.
\<close>

theorem recording_sample_count_counterexample:
  "ZSTD_recordFingerprint_1 zeroed_Fingerprint (replicate 8192 0) 8192 = Some (single_bucket 0 8191 8191)
   \<and> events_total 10 (single_bucket 0 8191 8191) = 8191
   \<and> uint (nbEvents (single_bucket 0 8191 8191)) = 8191
   \<and> int ((8192 - 1) div 1 + 1) = 8192"
proof -
  have "ZSTD_recordFingerprint_1 zeroed_Fingerprint (replicate 8192 0) 8192 = Some (single_bucket 0 8191 8191)"
    using record_zero_chunk [of split_lvl3] by (simp add: chunk_hits_eq chunk_nb_eq)
  moreover have "events_total 10 (single_bucket 0 8191 8191) = 8191"
    using events_total_single [of 0 10 8191 8191] by (simp add: HASHLOG_MAX_def)
  moreover have "uint (nbEvents (single_bucket 0 8191 8191)) = 8191"
    using single_bucket_nb [of 8191 0 8191] by simp
  ultimately show ?thesis by simp
qed

text \<open>
  With \<open>hashLog = 0\<close> there is no recording: \<open>hash2\<close> would shift a 32-bit value by 32
  bits, which C leaves undefined.
\<close>

lemma recordFingerprint_generic_hashLog_0:
  "recordFingerprint_generic fp src srcSize samplingRate 0 = None"
  by (simp add: recordFingerprint_generic_def addEvents_generic_def)

section \<open>The accumulator\<close>

lemma mergeEvents_nbEvents [simp]: "nbEvents (mergeEvents acc newfp) = nbEvents acc + nbEvents newfp"
  by (simp add: mergeEvents_def)

text \<open>Merging, cell by cell.\<close>

lemma fold_update_nth:
  assumes "k \<le> length a"
  shows "length (fold (\<lambda>n ev. ev[n := ev ! n + b ! n]) [0 ..< k] a) = length a
       \<and> (\<forall>i < length a. fold (\<lambda>n ev. ev[n := ev ! n + b ! n]) [0 ..< k] a ! i
                           = (if i < k then a ! i + b ! i else a ! i))"
  using assms
proof (induction k)
  case 0
  then show ?case by simp
next
  case (Suc k)
  then show ?case by (auto simp: nth_list_update less_Suc_eq)
qed

lemma mergeEvents_nth:
  assumes "length (events acc) = HASHTABLESIZE" "i < HASHTABLESIZE"
  shows "events (mergeEvents acc newfp) ! i = events acc ! i + events newfp ! i"
  using fold_update_nth [of HASHTABLESIZE "events acc" "events newfp"] assms
  by (simp add: mergeEvents_def)

lemma mergeEvents_length:
  assumes "length (events acc) = HASHTABLESIZE"
  shows "length (events (mergeEvents acc newfp)) = HASHTABLESIZE"
  using fold_update_nth [of HASHTABLESIZE "events acc" "events newfp"] assms
  by (simp add: mergeEvents_def)

lemma mergeEvents_single:
  assumes "h < HASHTABLESIZE"
  shows "mergeEvents (single_bucket h c1 n1) (single_bucket h c2 n2) = single_bucket h (c1 + c2) (n1 + n2)"
proof -
  have len: "length (events (single_bucket h c1 n1)) = HASHTABLESIZE"
    by (simp add: single_bucket_def)
  have "events (mergeEvents (single_bucket h c1 n1) (single_bucket h c2 n2))
        = events (single_bucket h (c1 + c2) (n1 + n2))"
  proof (rule nth_equalityI)
    show "length (events (mergeEvents (single_bucket h c1 n1) (single_bucket h c2 n2)))
          = length (events (single_bucket h (c1 + c2) (n1 + n2)))"
      using mergeEvents_length [OF len] by (simp add: single_bucket_def)
  next
    fix i assume "i < length (events (mergeEvents (single_bucket h c1 n1) (single_bucket h c2 n2)))"
    then have i: "i < HASHTABLESIZE" using mergeEvents_length [OF len] by simp
    show "events (mergeEvents (single_bucket h c1 n1) (single_bucket h c2 n2)) ! i
          = events (single_bucket h (c1 + c2) (n1 + n2)) ! i"
      unfolding mergeEvents_nth [OF len i] using i assms
      by (simp add: single_bucket_def nth_list_update)
  qed
  moreover have "nbEvents (mergeEvents (single_bucket h c1 n1) (single_bucket h c2 n2))
        = nbEvents (single_bucket h (c1 + c2) (n1 + n2))"
    by (simp add: single_bucket_def)
  ultimately show ?thesis by simp
qed

lemma near_single_merge:
  assumes ns: "near_single h N D fp" and h: "h < HASHTABLESIZE" and n: "N + int n < 2 ^ 32"
  shows "near_single h (N + int n) D (mergeEvents fp (single_bucket h n n))"
    and "near_single h (N + int n) D (mergeEvents (single_bucket h n n) fp)"
proof -
  let ?s = "single_bucket h n n"
  let ?e = "\<lambda>b. uint (events fp ! b)" and ?c = "\<lambda>b. if b = h then int n else 0"
  have "0 \<le> uint (events fp ! h)" by simp
  also have "\<dots> \<le> N" by (rule near_single_cell [OF ns h])
  finally have N0: "0 \<le> N" .
  have n32: "n < 2 ^ 32" using n N0 by simp
  have n64: "n < 2 ^ 64" using n32 by (rule less_trans) simp
  have len: "length (events fp) = HASHTABLESIZE" "length (events ?s) = HASHTABLESIZE"
    using ns by (simp_all add: near_single_def single_bucket_def)
  have nb: "uint (nbEvents fp) = N" "uint (nbEvents ?s) = int n"
    using ns single_bucket_nb [OF n64] by (simp_all add: near_single_def)
  have tot: "(\<Sum>b \<leftarrow> [0 ..< HASHTABLESIZE]. ?e b) = N"
    using ns by (simp add: near_single_def events_total_def pow_HASHLOG_MAX)
  have cell: "uint (events fp ! b + events ?s ! b) = ?e b + ?c b" if "b < HASHTABLESIZE" for b
  proof -
    have "?e b \<le> N" by (rule near_single_cell [OF ns that])
    moreover have s: "uint (events ?s ! b) = ?c b" by (rule single_bucket_nth [OF that n32])
    ultimately have "?e b + uint (events ?s ! b) < 2 ^ 32" using n by auto
    then show ?thesis using s by (simp only: uint_add32)
  qed
  have sum: "(\<Sum>b \<leftarrow> [0 ..< HASHTABLESIZE]. ?e b + ?c b) = N + int n"
    using h by (simp add: sum_list_addf tot sum_list_upt_delta)
  have nbsum: "uint (nbEvents fp + nbEvents ?s) = N + int n"
    using n nb by (subst uint_add64) simp_all
  have low: "N + int n - D \<le> ?e h + ?c h" using ns by (simp add: near_single_def)
  show "near_single h (N + int n) D (mergeEvents fp ?s)"
    unfolding near_single_def events_total_def pow_HASHLOG_MAX
  proof (intro conjI)
    show "length (events (mergeEvents fp ?s)) = HASHTABLESIZE" by (rule mergeEvents_length [OF len(1)])
    show "uint (nbEvents (mergeEvents fp ?s)) = N + int n" using nbsum by simp
    have "(\<Sum>b \<leftarrow> [0 ..< HASHTABLESIZE]. uint (events (mergeEvents fp ?s) ! b))
          = (\<Sum>b \<leftarrow> [0 ..< HASHTABLESIZE]. ?e b + ?c b)"
      by (rule sum_list_cong) (simp add: mergeEvents_nth [OF len(1)] cell)
    then show "(\<Sum>b \<leftarrow> [0 ..< HASHTABLESIZE]. uint (events (mergeEvents fp ?s) ! b)) = N + int n"
      using sum by simp
    show "N + int n - D \<le> uint (events (mergeEvents fp ?s) ! h)"
      using low by (simp only: mergeEvents_nth [OF len(1) h] cell [OF h])
  qed
  show "near_single h (N + int n) D (mergeEvents ?s fp)"
    unfolding near_single_def events_total_def pow_HASHLOG_MAX
  proof (intro conjI)
    show "length (events (mergeEvents ?s fp)) = HASHTABLESIZE" by (rule mergeEvents_length [OF len(2)])
    show "uint (nbEvents (mergeEvents ?s fp)) = N + int n" using nbsum by (simp add: add.commute)
    have "(\<Sum>b \<leftarrow> [0 ..< HASHTABLESIZE]. uint (events (mergeEvents ?s fp) ! b))
          = (\<Sum>b \<leftarrow> [0 ..< HASHTABLESIZE]. ?e b + ?c b)"
      by (rule sum_list_cong) (simp add: mergeEvents_nth [OF len(2)] cell add.commute)
    then show "(\<Sum>b \<leftarrow> [0 ..< HASHTABLESIZE]. uint (events (mergeEvents ?s fp) ! b)) = N + int n"
      using sum by simp
    show "N + int n - D \<le> uint (events (mergeEvents ?s fp) ! h)"
      using low by (simp only: mergeEvents_nth [OF len(2) h] cell [OF h] add.commute [of "events ?s ! h"])
  qed
qed

lemma mergeEvents_total:
  assumes "wf_Fingerprint a" "hashLog \<le> HASHLOG_MAX"
    and "events_total hashLog a + events_total hashLog b < 2 ^ 32"
  shows "events_total hashLog (mergeEvents a b) = events_total hashLog a + events_total hashLog b"
proof -
  have len: "length (events a) = HASHTABLESIZE" using assms(1) by (simp add: wf_Fingerprint_def)
  have le: "(2 :: nat) ^ hashLog \<le> HASHTABLESIZE" using assms(2) by (simp add: HASHTABLESIZE_def)
  have "uint (events (mergeEvents a b) ! n) = uint (events a ! n) + uint (events b ! n)"
    if "n \<in> set [0 ..< 2 ^ hashLog]" for n
  proof -
    from that have n: "n < 2 ^ hashLog" by simp
    have "uint (events a ! n) \<le> events_total hashLog a" "uint (events b ! n) \<le> events_total hashLog b"
      unfolding events_total_def by (rule events_cell_le_total [OF n])+
    then have "uint (events a ! n) + uint (events b ! n) < 2 ^ 32" using assms(3) by simp
    then show ?thesis
      by (simp only: mergeEvents_nth [OF len less_le_trans [OF n le]] uint_add32)
  qed
  then have "events_total hashLog (mergeEvents a b)
        = (\<Sum>n \<leftarrow> [0 ..< 2 ^ hashLog]. uint (events a ! n) + uint (events b ! n))"
    unfolding events_total_def by (rule sum_list_cong)
  then show ?thesis by (simp add: events_total_def sum_list_addf)
qed

section \<open>The chunk scanner\<close>

lemma byChunks_body_pos:
  "byChunks_body splitStrat p st = Continue st' \<Longrightarrow> pos st' = pos st + CHUNKSIZE"
  by (auto simp: byChunks_body_def split: option.splits bool.splits)


lemma byChunks_body_Return:
  "byChunks_body splitStrat p st = Return r \<Longrightarrow> r = pos st"
  by (auto simp: byChunks_body_def split: option.splits bool.splits)

text \<open>What the loop may return.\<close>

lemma byChunks_loop_range:
  assumes "CHUNKSIZE dvd pos st" "CHUNKSIZE dvd blockSize"
    and "byChunks_loop splitStrat p blockSize st = Some r"
  shows "r = blockSize \<or> (CHUNKSIZE dvd r \<and> pos st \<le> r \<and> r \<le> blockSize - CHUNKSIZE)"
  using assms
proof (induction splitStrat p blockSize st rule: byChunks_loop.induct)
  case (1 splitStrat p blockSize st)
  show ?case
  proof (cases "pos st \<le> blockSize - CHUNKSIZE")
    case False
    with "1.prems" show ?thesis by (simp add: byChunks_loop.simps [of _ _ _ st])
  next
    case True
    show ?thesis
    proof (cases "byChunks_body splitStrat p st")
      case Abort
      with True "1.prems" show ?thesis by (simp add: byChunks_loop.simps [of _ _ _ st])
    next
      case (Return x)
      with True "1.prems" byChunks_body_Return [OF Return] show ?thesis
        by (simp add: byChunks_loop.simps [of _ _ _ st])
    next
      case (Continue st')
      from True Continue "1.prems" have "byChunks_loop splitStrat p blockSize st' = Some r"
        by (simp add: byChunks_loop.simps [of _ _ _ st])
      moreover have "CHUNKSIZE dvd pos st'"
        using byChunks_body_pos [OF Continue] "1.prems"(1) by simp
      ultimately have "r = blockSize \<or> (CHUNKSIZE dvd r \<and> pos st' \<le> r \<and> r \<le> blockSize - CHUNKSIZE)"
        using "1.IH" [OF True Continue] "1.prems"(2) by blast
      then show ?thesis using byChunks_body_pos [OF Continue] by auto
    qed
  qed
qed

lemma byChunks_body_inv:
  assumes "scan_inv blockSize st" "pos st \<le> blockSize - CHUNKSIZE" "blockSize \<le> length p"
    "blockSize < 2 ^ 32"
  shows "(\<exists>st'. byChunks_body splitStrat p st = Continue st' \<and> scan_inv blockSize st')
       \<or> byChunks_body splitStrat p st = Return (pos st)"
proof -
  let ?past = "pastEvents (fpstats st)"
  let ?n = "(CHUNKSIZE - 1) div samplingRates splitStrat"
  from assms have le: "pos st + CHUNKSIZE \<le> blockSize" by (auto simp: scan_inv_def)
  with assms have len: "CHUNKSIZE \<le> length (drop (pos st) p)" by simp
  obtain cand where cand: "records_fs splitStrat (newEvents (fpstats st)) (drop (pos st) p) CHUNKSIZE = Some cand"
    and nb: "nbEvents cand = of_nat ?n"
    using records_fs_CHUNK [OF len] by simp
  have n: "0 < ?n" "?n < CHUNKSIZE" by (rule chunk_nbEvents_bounds)+
  have un: "unat (nbEvents cand) = ?n" 
    unfolding nb using n by (simp add: unat_of_nat64 CHUNKSIZE_def)
  have pastpos: "0 < unat (nbEvents ?past)" using assms by (simp add: scan_inv_def)
  then have p0: "0 < nbEvents ?past" by (simp add: word_less_nat_alt)
  have c0: "0 < nbEvents cand" using un n by (simp add: word_less_nat_alt)
  obtain d where d: "fpDistance ?past cand (hashParams splitStrat) = Some d"
    using hashParams_bounds [of splitStrat] by (auto simp: fpDistance_def)
  have sum: "unat (nbEvents ?past + nbEvents cand) = unat (nbEvents ?past) + ?n"
  proof -
    have "unat (nbEvents ?past) + unat (nbEvents cand) < 2 ^ 64"
      using assms le n un by (simp add: scan_inv_def)
    then show ?thesis using un by (simp add: unat_add_lem [THEN iffD1])
  qed
  show ?thesis
  proof (cases "compareFingerprints ?past cand (penalty st) (hashParams splitStrat)")
    case None
    with p0 c0 d assms(1) show ?thesis
      by (simp add: compareFingerprints_def Let_def scan_inv_def THRESHOLD_PENALTY_def)
  next
    case (Some b)
    show ?thesis
    proof (cases b)
      case True
      with Some cand show ?thesis by (simp add: byChunks_body_def)
    next
      case False
      with Some cand sum assms n le show ?thesis
        by (simp add: byChunks_body_def scan_inv_def THRESHOLD_PENALTY_def)
    qed
  qed
qed

lemma byChunks_loop_returns:
  assumes "scan_inv blockSize st" "blockSize \<le> length p" "blockSize < 2 ^ 32"
  shows "\<exists>r. byChunks_loop splitStrat p blockSize st = Some r"
  using assms
proof (induction splitStrat p blockSize st rule: byChunks_loop.induct)
  case (1 splitStrat p blockSize st)
  show ?case
  proof (cases "pos st \<le> blockSize - CHUNKSIZE")
    case False
    then show ?thesis by (simp add: byChunks_loop.simps [of _ _ _ st])
  next
    case True
    from byChunks_body_inv [OF "1.prems"(1) True "1.prems"(2,3), of splitStrat]
    show ?thesis
    proof
      assume "\<exists>st'. byChunks_body splitStrat p st = Continue st' \<and> scan_inv blockSize st'"
      then obtain st' where st': "byChunks_body splitStrat p st = Continue st'" "scan_inv blockSize st'"
        by blast
      from "1.IH" [OF True st'(1) st'(2) "1.prems"(2,3)] True st'(1)
      show ?thesis by (simp add: byChunks_loop.simps [of _ _ _ st])
    next
      assume "byChunks_body splitStrat p st = Return (pos st)"
      with True show ?thesis by (simp add: byChunks_loop.simps [of _ _ _ st])
    qed
  qed
qed

lemma byChunks_init_Some:
  assumes "CHUNKSIZE \<le> length blockStart"
  shows "\<exists>st. byChunks_init splitStrat blockStart workspace = Some st \<and> pos st = CHUNKSIZE
     \<and> penalty st = THRESHOLD_PENALTY
     \<and> nbEvents (pastEvents (fpstats st)) = of_nat ((CHUNKSIZE - 1) div samplingRates splitStrat)"
  using records_fs_CHUNK [OF assms] by (simp add: byChunks_init_def Let_def)

lemma byChunks_init_inv:
  assumes "byChunks_init splitStrat blockStart workspace = Some st" "CHUNKSIZE \<le> length blockStart"
    "CHUNKSIZE \<le> blockSize"
  shows "scan_inv blockSize st"
proof -
  let ?n = "(CHUNKSIZE - 1) div samplingRates splitStrat"
  have n: "0 < ?n" "?n < CHUNKSIZE" by (rule chunk_nbEvents_bounds)+
  then have "unat (of_nat ?n :: 64 word) = ?n" by (simp add: unat_of_nat64 CHUNKSIZE_def)
  with byChunks_init_Some [OF assms(2), of splitStrat workspace] assms(1,3) n
  show ?thesis by (auto simp: scan_inv_def CHUNKSIZE_def THRESHOLD_PENALTY_def)
qed



text \<open>The trace decides the result of the loop.\<close>

lemma byChunks_loop_trace:
  "byChunks_loop splitStrat p blockSize st =
     (case byChunks_trace splitStrat p blockSize st of
        [] \<Rightarrow> Some blockSize
      | _ # _ \<Rightarrow> (case byChunks_body splitStrat p (last (byChunks_trace splitStrat p blockSize st)) of
                    Abort \<Rightarrow> None | Return r \<Rightarrow> Some r | Continue st' \<Rightarrow> Some blockSize))"
proof (induction splitStrat p blockSize st rule: byChunks_loop.induct)
  case (1 splitStrat p blockSize st)
  show ?case
  proof (cases "pos st \<le> blockSize - CHUNKSIZE")
    case False
    then show ?thesis
      by (simp add: byChunks_trace.simps [of _ _ _ st] byChunks_loop.simps [of _ _ _ st])
  next
    case True
    show ?thesis
    proof (cases "byChunks_body splitStrat p st")
      case (Continue st')
      have tr: "byChunks_trace splitStrat p blockSize st = st # byChunks_trace splitStrat p blockSize st'"
        using True Continue by (simp add: byChunks_trace.simps [of _ _ _ st])
      have lp: "byChunks_loop splitStrat p blockSize st = byChunks_loop splitStrat p blockSize st'"
        using True Continue by (simp add: byChunks_loop.simps [of _ _ _ st])
      show ?thesis
      proof (cases "byChunks_trace splitStrat p blockSize st'")
        case Nil
        then have "\<not> pos st' \<le> blockSize - CHUNKSIZE"
          by (simp add: byChunks_trace.simps [of _ _ _ st'] split: if_splits)
        then have "byChunks_loop splitStrat p blockSize st' = Some blockSize"
          by (simp add: byChunks_loop.simps [of _ _ _ st'])
        with lp tr Nil Continue show ?thesis by simp
      next
        case (Cons a as)
        with "1.IH" [OF True Continue] lp tr show ?thesis by simp
      qed
    next
      case Abort
      with True show ?thesis
        by (simp add: byChunks_trace.simps [of _ _ _ st] byChunks_loop.simps [of _ _ _ st])
    next
      case (Return r)
      with True show ?thesis
        by (simp add: byChunks_trace.simps [of _ _ _ st] byChunks_loop.simps [of _ _ _ st])
    qed
  qed
qed

lemma uniform_chunk_drop:
  assumes "\<And>i. i < CHUNKSIZE \<Longrightarrow> p ! (k * CHUNKSIZE + i) = c" "(k + 1) * CHUNKSIZE \<le> length p"
  shows "CHUNKSIZE \<le> length (drop (k * CHUNKSIZE) p)"
    and "\<And>i. i < CHUNKSIZE \<Longrightarrow> drop (k * CHUNKSIZE) p ! i = c"
  using assms by simp_all

text \<open>
  One turn of the loop when the reference holds \<open>k\<close> chunks of bucket \<open>h\<close> and the
  samples of the next chunk all fall into the bucket \<open>h'\<close>.
\<close>

lemma byChunks_body_single:
  assumes rec: "records_fs s cand (drop (k * CHUNKSIZE) p) CHUNKSIZE
                = Some (single_bucket h' (chunk_hits s) (chunk_nb s))"
    and k: "1 \<le> k" "k \<le> 15" and pen: "0 \<le> pen" "pen \<le> 3"
    and h: "h < 2 ^ hashParams s" and h': "h' < 2 ^ hashParams s"
  shows "byChunks_body s p (uniform_state s h k cand pen) =
     (if h' = h
      then Continue (uniform_state s h (k + 1) (single_bucket h (chunk_hits s) (chunk_nb s))
                       (if 0 < pen then pen - 1 else pen))
      else Return (k * CHUNKSIZE))"
proof -
  let ?hits = "chunk_hits s" and ?nb = "chunk_nb s" and ?h' = "h'"
  have b: "0 < ?nb" "?nb \<le> ?hits" "?hits < 8192"
    using chunk_counts_bounds [of s] by (simp_all add: CHUNKSIZE_def)
  have "k * ?hits \<le> 15 * 8192" "k * ?nb \<le> 15 * 8192"
    using b k by (intro mult_mono; simp)+
  then have kh: "k * ?hits < 2 ^ 20" "k * ?nb < 2 ^ 20" "0 < k * ?nb" "?hits < 2 ^ 20" "?nb < 2 ^ 20"
    using b k by simp_all
  have hsz: "h < HASHTABLESIZE" using h pow_hashParams_le [of s] by simp
  have cmp: "compareFingerprints (single_bucket h (k * ?hits) (k * ?nb)) (single_bucket ?h' ?hits ?nb) pen (hashParams s)
     = Some (int (k * ?nb) * int ?nb * (14 + pen) div 16
             \<le> (if h = ?h' then \<bar>int (k * ?hits) * int ?nb - int ?hits * int (k * ?nb)\<bar>
                 else int (k * ?hits) * int ?nb + int ?hits * int (k * ?nb)))"
    using h h' hashParams_bounds(1) [of s] kh b pen
    by (intro compareFingerprints_single) simp_all
  have thr_pos: "1 \<le> int (k * ?nb) * int ?nb * (14 + pen) div 16"
  proof -
    have nb744: "744 \<le> int ?nb" by (cases s) (simp_all add: chunk_nb_eq)
    have A: "744 * 744 \<le> int ?nb * int ?nb"
      by (rule mult_mono) (use nb744 in simp_all)
    have C: "1 * (744 * 744) \<le> int k * (int ?nb * int ?nb)"
      by (rule mult_mono) (use A k in simp_all)
    have D: "1 * (744 * 744) * 14 \<le> int k * (int ?nb * int ?nb) * (14 + pen)"
      by (rule mult_mono) (use C pen in simp_all)
    have "int (k * ?nb) * int ?nb = int k * (int ?nb * int ?nb)" by simp
    with D have "16 \<le> int (k * ?nb) * int ?nb * (14 + pen)" by simp
    then show ?thesis by simp
  qed
  show ?thesis
  proof (cases "?h' = h")
    case True
    have "compareFingerprints (single_bucket h (k * ?hits) (k * ?nb)) (single_bucket ?h' ?hits ?nb) pen (hashParams s)
          = Some False"
      unfolding cmp using True thr_pos by (simp add: mult.commute mult.left_commute)
    then show ?thesis
      using rec True mergeEvents_single [OF hsz, of "k * ?hits" "k * ?nb" ?hits ?nb]
      by (simp add: byChunks_body_def uniform_state_def add.commute)
  next
    case False
    have "int (k * ?nb) * int ?nb * (14 + pen) div 16 \<le> int (k * ?nb) * int ?nb * 17 div 16"
      using pen by (intro zdiv_mono1 mult_left_mono) simp_all
    also have "\<dots> \<le> (int (k * ?nb) * int ?nb * 2 * 16) div 16"
      by (rule zdiv_mono1) simp_all
    also have "\<dots> = int (k * ?nb) * int ?nb * 2" by (rule nonzero_mult_div_cancel_right) simp
    also have "\<dots> \<le> int (k * ?hits) * int ?nb + int ?hits * int (k * ?nb)"
    proof -
      have "k * ?nb \<le> k * ?hits" using b by (intro mult_left_mono) simp_all
      then have kk: "int (k * ?nb) \<le> int (k * ?hits)" by (simp only: of_nat_le_iff)
      have "int (k * ?nb) * int ?nb \<le> int (k * ?hits) * int ?nb"
        using kk by (rule mult_right_mono) simp
      moreover have "int ?nb * int (k * ?nb) \<le> int ?hits * int (k * ?nb)"
        using b by (intro mult_right_mono) simp_all
      moreover have "int ?nb * int (k * ?nb) = int (k * ?nb) * int ?nb" by (rule mult.commute)
      ultimately show ?thesis by linarith
    qed
    finally have "compareFingerprints (single_bucket h (k * ?hits) (k * ?nb)) (single_bucket ?h' ?hits ?nb) pen (hashParams s)
          = Some True"
      unfolding cmp using False by simp
    then show ?thesis
      using rec False by (simp add: byChunks_body_def uniform_state_def)
  qed
qed

text \<open>The same when the next chunk is made of the byte \<open>c\<close> only.\<close>

lemma byChunks_body_uniform:
  assumes chunk: "\<And>i. i < CHUNKSIZE \<Longrightarrow> p ! (k * CHUNKSIZE + i) = c"
    and len: "(k + 1) * CHUNKSIZE \<le> length p"
    and k: "1 \<le> k" "k \<le> 15" and pen: "0 \<le> pen" "pen \<le> 3"
    and clean: "clean_tail (hashParams s) cand" and h: "h < 2 ^ hashParams s"
  shows "byChunks_body s p (uniform_state s h k cand pen) =
     (if bucket s c c = h
      then Continue (uniform_state s h (k + 1) (single_bucket h (chunk_hits s) (chunk_nb s))
                       (if 0 < pen then pen - 1 else pen))
      else Return (k * CHUNKSIZE))"
proof -
  have "records_fs s cand (drop (k * CHUNKSIZE) p) CHUNKSIZE
        = Some (single_bucket (bucket s c c) (chunk_hits s) (chunk_nb s))"
    using uniform_chunk_drop [OF chunk len] clean by (intro records_fs_uniform) simp_all
  then show ?thesis using k pen h bucket_less by (rule byChunks_body_single)
qed

lemma byChunks_init_uniform:
  assumes chunk: "\<And>i. i < CHUNKSIZE \<Longrightarrow> p ! i = c" and len: "CHUNKSIZE \<le> length p"
  shows "byChunks_init s p workspace
         = Some (uniform_state s (bucket s c c) 1 zeroed_Fingerprint THRESHOLD_PENALTY)"
proof -
  have "records_fs s zeroed_Fingerprint p CHUNKSIZE
        = Some (single_bucket (bucket s c c) (chunk_hits s) (chunk_nb s))"
    using len chunk clean_tail_zeroed [OF hashParams_bounds(1)] by (intro records_fs_uniform) simp_all
  then show ?thesis
    by (simp add: byChunks_init_def initStats_def uniform_state_def)
qed

text \<open>A run of chunks made of the byte \<open>c\<close>, scanned without a split.\<close>

lemma byChunks_loop_uniform_run:
  assumes run: "\<And>i. k * CHUNKSIZE \<le> i \<Longrightarrow> i < m * CHUNKSIZE \<Longrightarrow> p ! i = c"
    and km: "1 \<le> k" "k \<le> m" "m \<le> 16" and len: "m * CHUNKSIZE \<le> blockSize" "blockSize \<le> length p"
    and pen: "0 \<le> pen" "pen \<le> 3" and clean: "clean_tail (hashParams s) cand"
  shows "\<exists>cand'. clean_tail (hashParams s) cand'
           \<and> byChunks_loop s p blockSize (uniform_state s (bucket s c c) k cand pen)
             = byChunks_loop s p blockSize
                 (uniform_state s (bucket s c c) m cand' (max 0 (pen - int (m - k))))"
  using km(1,2) pen clean run
proof (induction "m - k" arbitrary: k pen cand)
  case 0
  then have "m = k" by simp
  with 0 show ?case by (intro exI [of _ cand]) simp
next
  case (Suc d)
  let ?h = "bucket s c c"
  let ?cand = "single_bucket ?h (chunk_hits s) (chunk_nb s)"
  let ?pen = "if 0 < pen then pen - 1 else pen"
  from Suc.hyps(2) have k: "k < m" "k \<le> 15" using km(3) by simp_all
  have le: "(k + 1) * CHUNKSIZE \<le> m * CHUNKSIZE" using k by (intro mult_right_mono) simp_all
  have body: "byChunks_body s p (uniform_state s ?h k cand pen) = Continue (uniform_state s ?h (k + 1) ?cand ?pen)"
  proof -
    have "p ! (k * CHUNKSIZE + i) = c" if "i < CHUNKSIZE" for i
      using that le by (intro Suc.prems(6)) simp_all
    moreover have "(k + 1) * CHUNKSIZE \<le> length p" using le len by simp
    ultimately show ?thesis
      using byChunks_body_uniform [of p k c pen s cand ?h] Suc.prems k bucket_less [of s c c]
      by simp
  qed
  have "pos (uniform_state s ?h k cand pen) \<le> blockSize - CHUNKSIZE"
    using le len by (simp add: uniform_state_def)
  then have step: "byChunks_loop s p blockSize (uniform_state s ?h k cand pen)
        = byChunks_loop s p blockSize (uniform_state s ?h (k + 1) ?cand ?pen)"
    using body by (simp add: byChunks_loop.simps [of _ _ _ "uniform_state s ?h k cand pen"])
  have "\<exists>cand'. clean_tail (hashParams s) cand'
           \<and> byChunks_loop s p blockSize (uniform_state s ?h (k + 1) ?cand ?pen)
             = byChunks_loop s p blockSize
                 (uniform_state s ?h m cand' (max 0 (?pen - int (m - (k + 1)))))"
  proof (rule Suc.hyps(1))
    show "d = m - (k + 1)" using Suc.hyps(2) by simp
    show "1 \<le> k + 1" by simp
    show "k + 1 \<le> m" using k by simp
    show "0 \<le> ?pen" "?pen \<le> 3" using Suc.prems by simp_all
    show "clean_tail (hashParams s) ?cand" by (rule clean_tail_single [OF bucket_less])
    show "p ! i = c" if "(k + 1) * CHUNKSIZE \<le> i" "i < m * CHUNKSIZE" for i
      using that by (intro Suc.prems(6)) simp_all
  qed
  moreover have "max 0 (?pen - int (m - (k + 1))) = max 0 (pen - int (m - k))"
    using k Suc.prems by auto
  ultimately show ?case using step by simp
qed

lemma byChunks_loop_end:
  "blockSize = 16 * CHUNKSIZE \<Longrightarrow>
   byChunks_loop s p blockSize (uniform_state s h 16 cand pen) = Some blockSize"
  by (subst byChunks_loop.simps) (simp add: uniform_state_def CHUNKSIZE_def)

lemma uniform_no_split:
  assumes "sizeof_FPStats \<le> wkspSize"
  shows "ZSTD_splitBlock (replicate (128 * 2 ^ 10) c) (128 * 2 ^ 10) s workspace wkspSize = Some (128 * 2 ^ 10)"
proof -
  let ?p = "replicate (128 * 2 ^ 10) c" and ?bs = "128 * 2 ^ 10 :: nat"
  have bs: "?bs = 16 * CHUNKSIZE" by (simp add: CHUNKSIZE_def)
  have init: "byChunks_init s ?p workspace
        = Some (uniform_state s (bucket s c c) 1 zeroed_Fingerprint THRESHOLD_PENALTY)"
    by (rule byChunks_init_uniform) (simp_all add: CHUNKSIZE_def)
  obtain cand' where "byChunks_loop s ?p ?bs (uniform_state s (bucket s c c) 1 zeroed_Fingerprint THRESHOLD_PENALTY)
      = byChunks_loop s ?p ?bs (uniform_state s (bucket s c c) 16 cand' (max 0 (THRESHOLD_PENALTY - int (16 - 1))))"
    using byChunks_loop_uniform_run [of 1 16 ?p c ?bs THRESHOLD_PENALTY s zeroed_Fingerprint]
      clean_tail_zeroed [OF hashParams_bounds(1), of s]
    by (auto simp: CHUNKSIZE_def THRESHOLD_PENALTY_def)
  then have "byChunks_loop s ?p ?bs (uniform_state s (bucket s c c) 1 zeroed_Fingerprint THRESHOLD_PENALTY)
      = Some ?bs"
    using byChunks_loop_end [OF bs] by simp
  then show ?thesis
    using assms init by (simp add: ZSTD_splitBlock_def ZSTD_splitBlock_byChunks_def)
qed

lemma splitBlock_result:
  assumes "blockSize = 128 * 2 ^ 10" "length blockStart = blockSize" "sizeof_FPStats \<le> wkspSize"
  shows "\<exists>r. ZSTD_splitBlock blockStart blockSize splitStrat workspace wkspSize = Some r
           \<and> (r = blockSize \<or> (CHUNKSIZE dvd r \<and> CHUNKSIZE \<le> r \<and> r \<le> blockSize - CHUNKSIZE))"
proof -
  have cl: "CHUNKSIZE \<le> length blockStart" "CHUNKSIZE \<le> blockSize" "CHUNKSIZE dvd blockSize"
    using assms by (simp_all add: CHUNKSIZE_def)
  obtain st where st: "byChunks_init splitStrat blockStart workspace = Some st" "pos st = CHUNKSIZE"
    using byChunks_init_Some [OF cl(1)] by blast
  have inv: "scan_inv blockSize st" by (rule byChunks_init_inv [OF st(1) cl(1,2)])
  obtain r where r: "byChunks_loop splitStrat blockStart blockSize st = Some r"
  proof -
    have "blockSize \<le> length blockStart" "blockSize < 2 ^ 32" using assms by simp_all
    from byChunks_loop_returns [OF inv this] show ?thesis using that by blast
  qed
  have res: "ZSTD_splitBlock blockStart blockSize splitStrat workspace wkspSize = Some r"
    using assms st r by (simp add: ZSTD_splitBlock_def ZSTD_splitBlock_byChunks_def)
  from byChunks_loop_range [OF _ cl(3) r] st(2)
  have "r = blockSize \<or> (CHUNKSIZE dvd r \<and> CHUNKSIZE \<le> r \<and> r \<le> blockSize - CHUNKSIZE)" by simp
  with res show ?thesis by blast
qed



lemma bucket_lvl3_values: "bucket split_lvl3 0 0 = 0" "bucket split_lvl3 1 1 = 854"
  by (simp_all add: bucket_def hash2_def MEM_read16_def KNUTH_def)

text \<open>
  A block that begins with \<open>m\<close> chunks of the byte \<open>c\<close>, followed by a chunk of a byte
  \<open>c'\<close> that falls into another bucket, is split in front of that chunk.
\<close>

lemma split_after_uniform_run:
  assumes m: "1 \<le> m" "m \<le> 15"
    and run: "\<And>i. i < m * CHUNKSIZE \<Longrightarrow> p ! i = c"
    and nxt: "\<And>i. i < CHUNKSIZE \<Longrightarrow> p ! (m * CHUNKSIZE + i) = c'"
    and diff: "bucket s c' c' \<noteq> bucket s c c"
    and len: "length p = 128 * 2 ^ 10" and w: "sizeof_FPStats \<le> wkspSize"
  shows "ZSTD_splitBlock p (128 * 2 ^ 10) s workspace wkspSize = Some (m * CHUNKSIZE)"
proof -
  let ?bs = "128 * 2 ^ 10 :: nat" and ?h = "bucket s c c"
  have mC: "(m + 1) * CHUNKSIZE \<le> ?bs" "CHUNKSIZE \<le> m * CHUNKSIZE"
    using m by (simp_all add: CHUNKSIZE_def)
  have first: "p ! i = c" if "i < CHUNKSIZE" for i
    using less_le_trans [OF that mC(2)] by (rule run)
  have init: "byChunks_init s p workspace = Some (uniform_state s ?h 1 zeroed_Fingerprint THRESHOLD_PENALTY)"
    using len by (intro byChunks_init_uniform first) (simp_all add: CHUNKSIZE_def)
  obtain cand' where cand': "clean_tail (hashParams s) cand'"
    and "byChunks_loop s p ?bs (uniform_state s ?h 1 zeroed_Fingerprint THRESHOLD_PENALTY)
      = byChunks_loop s p ?bs (uniform_state s ?h m cand' (max 0 (THRESHOLD_PENALTY - int (m - 1))))"
    using byChunks_loop_uniform_run [of 1 m p c ?bs THRESHOLD_PENALTY s zeroed_Fingerprint]
      clean_tail_zeroed [OF hashParams_bounds(1), of s] m mC run len
    by (auto simp: THRESHOLD_PENALTY_def)
  moreover have "byChunks_loop s p ?bs (uniform_state s ?h m cand' (max 0 (THRESHOLD_PENALTY - int (m - 1))))
      = Some (m * CHUNKSIZE)"
  proof -
    have "byChunks_body s p (uniform_state s ?h m cand' (max 0 (THRESHOLD_PENALTY - int (m - 1))))
        = Return (m * CHUNKSIZE)"
      using byChunks_body_uniform [of p m c' "max 0 (THRESHOLD_PENALTY - int (m - 1))" s cand' ?h]
        nxt mC len m cand' diff bucket_less [of s c c]
      by (simp add: THRESHOLD_PENALTY_def)
    moreover have "pos (uniform_state s ?h m cand' (max 0 (THRESHOLD_PENALTY - int (m - 1)))) \<le> ?bs - CHUNKSIZE"
      using mC by (simp add: uniform_state_def)
    ultimately show ?thesis by (subst byChunks_loop.simps) simp
  qed
  ultimately have "byChunks_loop s p ?bs (uniform_state s ?h 1 zeroed_Fingerprint THRESHOLD_PENALTY)
      = Some (m * CHUNKSIZE)"
    by simp
  then show ?thesis
    using init len w by (simp add: ZSTD_splitBlock_def ZSTD_splitBlock_byChunks_def)
qed

lemma split_two_tone:
  assumes "1 \<le> m" "m \<le> 15" "sizeof_FPStats \<le> wkspSize"
  shows "ZSTD_splitBlock (replicate (m * CHUNKSIZE) 0 @ replicate ((16 - m) * CHUNKSIZE) 1) (128 * 2 ^ 10)
           split_lvl3 workspace wkspSize = Some (m * CHUNKSIZE)"
proof (rule split_after_uniform_run [where c = 0 and c' = 1])
  show "bucket split_lvl3 1 1 \<noteq> bucket split_lvl3 0 0" by (simp add: bucket_lvl3_values)
  have "m * CHUNKSIZE + (16 - m) * CHUNKSIZE = 16 * CHUNKSIZE"
    using assms(2) by (simp flip: add_mult_distrib)
  then show "length (replicate (m * CHUNKSIZE) (0 :: 8 word) @ replicate ((16 - m) * CHUNKSIZE) 1) = 128 * 2 ^ 10"
    by (simp add: CHUNKSIZE_def)
  show "(replicate (m * CHUNKSIZE) (0 :: 8 word) @ replicate ((16 - m) * CHUNKSIZE) 1) ! i = 0"
    if "i < m * CHUNKSIZE" for i
    using that by (simp add: nth_append)
  show "(replicate (m * CHUNKSIZE) (0 :: 8 word) @ replicate ((16 - m) * CHUNKSIZE) 1) ! (m * CHUNKSIZE + i) = 1"
    if "i < CHUNKSIZE" for i
  proof -
    obtain j where "16 - m = Suc j" using assms(2) by (cases "16 - m") simp_all
    then have "i < (16 - m) * CHUNKSIZE" using that by simp
    then show ?thesis by (simp add: nth_append)
  qed
qed (use assms in simp_all)

text \<open>
  Every comparison of the scanner stays within the range of the machine types, and so
  gives the verdict of the specification.
\<close>

lemma byChunks_body_exact:
  assumes sc: "scan_counts s k st" and k: "1 \<le> k" "k \<le> 15" and len: "(k + 1) * CHUNKSIZE \<le> length p"
  shows "\<exists>cand. records_fs s (newEvents (fpstats st)) (drop (pos st) p) CHUNKSIZE = Some cand
           \<and> cross_mass (pastEvents (fpstats st)) cand (hashParams s) < 2 ^ 63
           \<and> uint (nbEvents (pastEvents (fpstats st))) * uint (nbEvents cand) * (14 + penalty st) < 2 ^ 64
           \<and> compareFingerprints (pastEvents (fpstats st)) cand (penalty st) (hashParams s)
             = Some (spec_too_different (pastEvents (fpstats st)) cand (penalty st) (hashParams s))
           \<and> (\<forall>st'. byChunks_body s p st = Continue st' \<longrightarrow> scan_counts s (k + 1) st')"
proof -
  let ?past = "pastEvents (fpstats st)" and ?hl = "hashParams s"
  have pos: "pos st = k * CHUNKSIZE" and pen: "0 \<le> penalty st" "penalty st \<le> 3"
    and wf: "wf_Fingerprint ?past" "wf_Fingerprint (newEvents (fpstats st))"
    and tp: "events_total ?hl ?past = int (k * chunk_hits s)" and np: "uint (nbEvents ?past) = int (k * chunk_nb s)"
    using sc by (simp_all add: scan_counts_def)
  have b: "0 < chunk_nb s" "chunk_nb s \<le> chunk_hits s" "chunk_hits s < 8192"
    using chunk_counts_bounds [of s] by (simp_all add: CHUNKSIZE_def)
  have "k * chunk_hits s \<le> 15 * 8192" "k * chunk_nb s \<le> 15 * 8192"
    using b k by (intro mult_mono; simp)+
  then have kb: "k * chunk_hits s \<le> 15 * 8192" "k * chunk_nb s \<le> 15 * 8192" "0 < k * chunk_nb s"
    using b k by simp_all
  have dl: "CHUNKSIZE \<le> length (drop (pos st) p)" using len pos by simp
  obtain cand where rec: "records_fs s (newEvents (fpstats st)) (drop (pos st) p) CHUNKSIZE = Some cand"
    and wc: "wf_Fingerprint cand" and tc: "events_total ?hl cand = int (chunk_hits s)"
    and nc: "uint (nbEvents cand) = int (chunk_nb s)"
    using recordFingerprint_generic_counts [of CHUNKSIZE "drop (pos st) p" "samplingRates s" ?hl "newEvents (fpstats st)"]
      dl wf(2) samplingRates_bounds [of s] hashParams_bounds [of s]
      nbSamples_formula [of CHUNKSIZE "samplingRates s"]
    by (auto simp: records_fs_eq CHUNKSIZE_def HASHLENGTH_def chunk_hits_def chunk_nb_def)
  have ib: "int (chunk_nb s) \<le> 8192" "int (chunk_hits s) \<le> 8192"
    "int (k * chunk_hits s) \<le> 122880" "int (k * chunk_nb s) \<le> 122880"
    using kb b by (simp_all del: of_nat_mult)
  have "int (chunk_nb s) * int (k * chunk_hits s) \<le> 8192 * 122880"
    "int (k * chunk_nb s) * int (chunk_hits s) \<le> 122880 * 8192"
    using ib by (intro mult_mono; simp del: of_nat_mult)+
  then have "int (chunk_nb s) * int (k * chunk_hits s) + int (k * chunk_nb s) * int (chunk_hits s)
             < 9223372036854775808"
    by linarith
  moreover have "(2 :: int) ^ 63 = 9223372036854775808" by simp
  ultimately have mass: "cross_mass ?past cand ?hl < 2 ^ 63"
    unfolding cross_mass_totals tp np tc nc by (simp only:)
  have "int (k * chunk_nb s) * int (chunk_nb s) \<le> 122880 * 8192"
    using ib by (intro mult_mono; simp del: of_nat_mult)
  then have "int (k * chunk_nb s) * int (chunk_nb s) * (14 + penalty st) \<le> (122880 * 8192) * 17"
    by (rule mult_mono) (use pen in simp_all)
  then have "int (k * chunk_nb s) * int (chunk_nb s) * (14 + penalty st) < 18446744073709551616"
    by linarith
  moreover have "(2 :: int) ^ 64 = 18446744073709551616" by simp
  ultimately have prod: "uint (nbEvents ?past) * uint (nbEvents cand) * (14 + penalty st) < 2 ^ 64"
    unfolding np nc by (simp only:)
  have p0: "0 < nbEvents ?past" "0 < nbEvents cand"
    using np nc kb b by (simp_all add: word_less_def)
  have cmp: "compareFingerprints ?past cand (penalty st) ?hl
             = Some (spec_too_different ?past cand (penalty st) ?hl)"
    by (rule compareFingerprints_exact [OF hashParams_bounds(1) p0 pen(1) penalty_small [OF pen(2)] mass prod])
  have "scan_counts s (k + 1) st'" if "byChunks_body s p st = Continue st'" for st'
  proof -
    from that rec cmp have st': "st' = \<lparr>fpstats = \<lparr>pastEvents = mergeEvents ?past cand, newEvents = cand\<rparr>,
        penalty = (if 0 < penalty st then penalty st - 1 else penalty st), pos = pos st + CHUNKSIZE\<rparr>"
      by (auto simp: byChunks_body_def split: bool.splits)
    have "events_total ?hl ?past + events_total ?hl cand < 2 ^ 32"
      unfolding tp tc using ib by (simp del: of_nat_mult)
    then have "events_total ?hl (mergeEvents ?past cand) = int ((k + 1) * chunk_hits s)"
      using mergeEvents_total [OF wf(1) hashParams_bounds(1), of s cand] tp tc by simp
    moreover have "uint (nbEvents ?past + nbEvents cand) = int ((k + 1) * chunk_nb s)"
    proof -
      have "uint (nbEvents ?past) + uint (nbEvents cand) < 2 ^ 64"
        unfolding np nc using ib by (simp del: of_nat_mult)
      then show ?thesis unfolding uint_add64 [OF \<open>uint (nbEvents ?past) + uint (nbEvents cand) < 2 ^ 64\<close>] np nc
        by (simp add: algebra_simps)
    qed
    moreover have "wf_Fingerprint (mergeEvents ?past cand)"
      using wf(1) mergeEvents_length [of ?past cand] by (simp add: wf_Fingerprint_def)
    ultimately show ?thesis
      unfolding st' using wc pos pen by (simp add: scan_counts_def)
  qed
  with rec mass prod cmp show ?thesis by blast
qed

lemma byChunks_init_counts:
  assumes "byChunks_init s p workspace = Some st" "CHUNKSIZE \<le> length p"
  shows "scan_counts s 1 st"
proof -
  obtain past where rec: "records_fs s zeroed_Fingerprint p CHUNKSIZE = Some past"
    and wc: "wf_Fingerprint past" and tc: "events_total (hashParams s) past = int (chunk_hits s)"
    and nc: "uint (nbEvents past) = int (chunk_nb s)"
    using recordFingerprint_generic_counts [of CHUNKSIZE p "samplingRates s" "hashParams s" zeroed_Fingerprint]
      assms(2) wf_zeroed samplingRates_bounds [of s] hashParams_bounds [of s]
      nbSamples_formula [of CHUNKSIZE "samplingRates s"]
    by (auto simp: records_fs_eq CHUNKSIZE_def HASHLENGTH_def chunk_hits_def chunk_nb_def)
  with assms(1) show ?thesis
    using wf_zeroed by (auto simp: byChunks_init_def initStats_def scan_counts_def THRESHOLD_PENALTY_def)
qed

lemma byChunks_trace_counts:
  assumes "scan_counts s k st" "1 \<le> k" "blockSize = 16 * CHUNKSIZE" "blockSize \<le> length p"
    and "i < length (byChunks_trace s p blockSize st)"
  shows "scan_counts s (k + i) (byChunks_trace s p blockSize st ! i) \<and> k + i \<le> 15"
  using assms
proof (induction s p blockSize st arbitrary: i k rule: byChunks_trace.induct)
  case (1 s p blockSize st)
  have C: "0 < CHUNKSIZE" by (simp add: CHUNKSIZE_def)
  have pos: "pos st = k * CHUNKSIZE" using "1.prems"(1) by (simp add: scan_counts_def)
  show ?case
  proof (cases "pos st \<le> blockSize - CHUNKSIZE")
    case False
    with "1.prems" show ?thesis by (simp add: byChunks_trace.simps [of _ _ _ st])
  next
    case True
    then have "k * CHUNKSIZE \<le> 15 * CHUNKSIZE" using pos "1.prems"(3) by simp
    then have k15: "k \<le> 15" using C by simp
    then have len: "(k + 1) * CHUNKSIZE \<le> length p"
      using "1.prems"(3,4) by (simp add: CHUNKSIZE_def)
    show ?thesis
    proof (cases i)
      case 0
      with True "1.prems" k15 show ?thesis by (simp add: byChunks_trace.simps [of _ _ _ st])
    next
      case (Suc j)
      show ?thesis
      proof (cases "byChunks_body s p st")
        case (Continue st')
        have tr: "byChunks_trace s p blockSize st = st # byChunks_trace s p blockSize st'"
          using True Continue by (simp add: byChunks_trace.simps [of _ _ _ st])
        have sc': "scan_counts s (k + 1) st'"
          using byChunks_body_exact [OF "1.prems"(1,2) k15 len] Continue by blast
        have "j < length (byChunks_trace s p blockSize st')" using "1.prems"(5) tr Suc by simp
        from "1.IH" [OF True Continue sc' _ "1.prems"(3,4) this]
        show ?thesis using tr Suc by simp
      next
        case Abort
        with True "1.prems" Suc show ?thesis by (simp add: byChunks_trace.simps [of _ _ _ st])
      next
        case (Return r)
        with True "1.prems" Suc show ?thesis by (simp add: byChunks_trace.simps [of _ _ _ st])
      qed
    qed
  qed
qed

lemma splitBlock_comparisons_exact:
  assumes "i < length (ZSTD_splitBlock_trace blockStart blockSize s workspace wkspSize)"
  shows "\<exists>st cand. ZSTD_splitBlock_trace blockStart blockSize s workspace wkspSize ! i = st
           \<and> records_fs s (newEvents (fpstats st)) (drop (pos st) blockStart) CHUNKSIZE = Some cand
           \<and> cross_mass (pastEvents (fpstats st)) cand (hashParams s) < 2 ^ 63
           \<and> uint (nbEvents (pastEvents (fpstats st))) * uint (nbEvents cand) * (14 + penalty st) < 2 ^ 64
           \<and> compareFingerprints (pastEvents (fpstats st)) cand (penalty st) (hashParams s)
             = Some (spec_too_different (pastEvents (fpstats st)) cand (penalty st) (hashParams s))"
proof -
  let ?T = "ZSTD_splitBlock_trace blockStart blockSize s workspace wkspSize"
  from assms have ne: "?T \<noteq> []" by auto
  then obtain st0 where init: "byChunks_init s blockStart workspace = Some st0"
    and T: "?T = byChunks_trace s blockStart blockSize st0"
    and bs: "blockSize = 128 * 2 ^ 10" and len: "blockSize \<le> length blockStart"
    by (auto simp: ZSTD_splitBlock_trace_def split: if_splits option.splits)
  have bs16: "blockSize = 16 * CHUNKSIZE" using bs by (simp add: CHUNKSIZE_def)
  have "CHUNKSIZE \<le> length blockStart" using len bs by (simp add: CHUNKSIZE_def)
  then have sc0: "scan_counts s 1 st0" by (rule byChunks_init_counts [OF init])
  have sc: "scan_counts s (1 + i) (?T ! i)" "1 + i \<le> 15"
    using byChunks_trace_counts [OF sc0 order_refl bs16 len, of i] assms unfolding T by simp_all
  have "(1 + i + 1) * CHUNKSIZE \<le> length blockStart"
    using sc(2) len bs by (simp add: CHUNKSIZE_def)
  from byChunks_body_exact [OF sc(1) _ sc(2) this] show ?thesis by auto
qed

text \<open>
  Claim C1. For a block of 128 KiB, any of the three strategies and a workspace of at
  least \<open>sizeof(FPStats)\<close> bytes, \<open>ZSTD_splitBlock\<close> returns an offset, and that
  offset is one of \<open>CHUNKSIZE, 2 * CHUNKSIZE, \<dots>, blockSize - CHUNKSIZE\<close> or it is
  \<open>blockSize\<close>; so it is a multiple of \<open>CHUNKSIZE\<close>, not 0 and not inside the first
  chunk.
\<close>

theorem splitBlock_range:
  assumes "blockSize = 128 * 2 ^ 10" "length blockStart = blockSize" "sizeof_FPStats \<le> wkspSize"
  shows "\<exists>r. ZSTD_splitBlock blockStart blockSize splitStrat workspace wkspSize = Some r
           \<and> (r \<in> {k * CHUNKSIZE | k. 1 \<le> k \<and> k \<le> blockSize div CHUNKSIZE - 1} \<or> r = blockSize)
           \<and> CHUNKSIZE dvd r \<and> CHUNKSIZE \<le> r"
proof -
  obtain r where res: "ZSTD_splitBlock blockStart blockSize splitStrat workspace wkspSize = Some r"
    and rng: "r = blockSize \<or> (CHUNKSIZE dvd r \<and> CHUNKSIZE \<le> r \<and> r \<le> blockSize - CHUNKSIZE)"
    using splitBlock_result [OF assms] by blast
  have cl: "CHUNKSIZE \<le> blockSize" "CHUNKSIZE dvd blockSize"
    using assms by (simp_all add: CHUNKSIZE_def)
  have "r \<in> {k * CHUNKSIZE | k. 1 \<le> k \<and> k \<le> blockSize div CHUNKSIZE - 1}"
    if "CHUNKSIZE dvd r" "CHUNKSIZE \<le> r" "r \<le> blockSize - CHUNKSIZE"
  proof -
    from that(1) obtain k where k: "r = CHUNKSIZE * k" by (auto simp: dvd_def)
    with that(2,3) assms(1) have "1 \<le> k \<and> k \<le> blockSize div CHUNKSIZE - 1"
      by (auto simp: CHUNKSIZE_def)
    with k show ?thesis by (auto simp: mult.commute)
  qed
  with rng res cl show ?thesis by auto
qed

text \<open>The theorem at a block of 128 KiB of the byte 7, scanned at level 2.\<close>

theorem splitBlock_range_witness:
  "\<exists>r. ZSTD_splitBlock (replicate (128 * 2 ^ 10) 7) (128 * 2 ^ 10) split_lvl2
          \<lparr>pastEvents = zeroed_Fingerprint, newEvents = zeroed_Fingerprint\<rparr> sizeof_FPStats = Some r
       \<and> (r \<in> {k * CHUNKSIZE | k. 1 \<le> k \<and> k \<le> 128 * 2 ^ 10 div CHUNKSIZE - 1} \<or> r = 128 * 2 ^ 10)
       \<and> CHUNKSIZE dvd r \<and> CHUNKSIZE \<le> r"
  using splitBlock_range [of "128 * 2 ^ 10" "replicate (128 * 2 ^ 10) 7" sizeof_FPStats split_lvl2
      "\<lparr>pastEvents = zeroed_Fingerprint, newEvents = zeroed_Fingerprint\<rparr>"]
  by simp

text \<open>
  Claim C5. A block of 128 KiB that repeats one byte value is not split, whatever the
  byte and the strategy: \<open>ZSTD_splitBlock\<close> returns \<open>blockSize\<close>.
\<close>

theorem uniform_block_no_split:
  assumes "length blockStart = 128 * 2 ^ 10" "\<forall>i < length blockStart. blockStart ! i = c"
    and "sizeof_FPStats \<le> wkspSize"
  shows "ZSTD_splitBlock blockStart (128 * 2 ^ 10) splitStrat workspace wkspSize = Some (128 * 2 ^ 10)"
proof -
  have "blockStart = replicate (128 * 2 ^ 10) c"
  proof (rule nth_equalityI)
    show "length blockStart = length (replicate (128 * 2 ^ 10) c)" using assms(1) by simp
    fix i assume i: "i < length blockStart"
    then have "blockStart ! i = c" using assms(2) by blast
    then show "blockStart ! i = replicate (128 * 2 ^ 10) c ! i" using i assms(1) by simp
  qed
  then show ?thesis using uniform_no_split [OF assms(3)] by simp
qed

text \<open>The theorem at a block of the letter A, scanned at level 1.\<close>

theorem uniform_block_no_split_witness:
  "length (replicate (128 * 2 ^ 10) (0x41 :: 8 word)) = 128 * 2 ^ 10 \<and> sizeof_FPStats \<le> 8208
   \<and> ZSTD_splitBlock (replicate (128 * 2 ^ 10) 0x41) (128 * 2 ^ 10) split_lvl1
       \<lparr>pastEvents = zeroed_Fingerprint, newEvents = zeroed_Fingerprint\<rparr> 8208 = Some (128 * 2 ^ 10)"
proof -
  have w: "sizeof_FPStats \<le> 8208"
    by (simp add: sizeof_FPStats_def HASHTABLESIZE_def HASHLOG_MAX_def)
  have l: "length (replicate (128 * 2 ^ 10) (0x41 :: 8 word)) = 128 * 2 ^ 10" by simp
  have u: "\<forall>i < length (replicate (128 * 2 ^ 10) (0x41 :: 8 word)). replicate (128 * 2 ^ 10) 0x41 ! i = 0x41"
    by simp
  from uniform_block_no_split [OF l u w] l w show ?thesis by simp
qed

text \<open>
  Claim C6, as amended. A split point, when one is found, is a multiple of
  \<open>CHUNKSIZE\<close> with \<open>CHUNKSIZE \<le> offset \<le> blockSize - CHUNKSIZE\<close>: both ends are
  possible split points.
\<close>

theorem split_found_bounds:
  assumes "ZSTD_splitBlock blockStart blockSize splitStrat workspace wkspSize = Some r" "r \<noteq> blockSize"
  shows "CHUNKSIZE dvd r \<and> CHUNKSIZE \<le> r \<and> r \<le> blockSize - CHUNKSIZE"
proof -
  from assms(1) have bs: "blockSize = 128 * 2 ^ 10"
    by (simp add: ZSTD_splitBlock_def ZSTD_splitBlock_byChunks_def split: if_splits)
  from assms(1) obtain st where init: "byChunks_init splitStrat blockStart workspace = Some st"
    and loop: "byChunks_loop splitStrat blockStart blockSize st = Some r"
    by (auto simp: ZSTD_splitBlock_def ZSTD_splitBlock_byChunks_def split: if_splits option.splits)
  have "pos st = CHUNKSIZE"
    using init by (auto simp: byChunks_init_def Let_def split: option.splits)
  with byChunks_loop_range [OF _ _ loop] bs assms(2) show ?thesis
    by (auto simp: CHUNKSIZE_def)
qed

text \<open>The theorem at a block whose first chunk is made of 0 and whose other chunks of 1.\<close>

theorem split_found_bounds_witness:
  "ZSTD_splitBlock (replicate 8192 0 @ replicate 122880 1) 131072 split_lvl3
     \<lparr>pastEvents = zeroed_Fingerprint, newEvents = zeroed_Fingerprint\<rparr> 8208 = Some 8192
   \<and> (8192 :: nat) \<noteq> 131072
   \<and> CHUNKSIZE dvd 8192 \<and> CHUNKSIZE \<le> 8192 \<and> (8192 :: nat) \<le> 131072 - CHUNKSIZE"
proof -
  have r: "ZSTD_splitBlock (replicate 8192 0 @ replicate 122880 1) 131072 split_lvl3
     \<lparr>pastEvents = zeroed_Fingerprint, newEvents = zeroed_Fingerprint\<rparr> 8208 = Some 8192"
    using split_two_tone [of 1 8208 "\<lparr>pastEvents = zeroed_Fingerprint, newEvents = zeroed_Fingerprint\<rparr>"]
    by (simp add: CHUNKSIZE_def sizeof_FPStats_def HASHTABLESIZE_def HASHLOG_MAX_def)
  have n: "(8192 :: nat) \<noteq> 131072" by simp
  from split_found_bounds [OF r n] r n show ?thesis by simp
qed

text \<open>
  Claim C6, as stated, asks for \<open>CHUNKSIZE < offset < blockSize - CHUNKSIZE\<close>. The loop
  starts at \<open>pos = CHUNKSIZE\<close> and runs while \<open>pos \<le> blockSize - CHUNKSIZE\<close>, so both
  ends are returned: at level 3, a chunk of 0 followed by fifteen chunks of 1 is split
  at 8192, and fifteen chunks of 0 followed by a chunk of 1 at 122880.
\<close>

theorem split_found_bounds_counterexample:
  "ZSTD_splitBlock (replicate 8192 0 @ replicate 122880 1) 131072 split_lvl3
     \<lparr>pastEvents = zeroed_Fingerprint, newEvents = zeroed_Fingerprint\<rparr> 8208 = Some 8192
   \<and> \<not> CHUNKSIZE < 8192
   \<and> ZSTD_splitBlock (replicate 122880 0 @ replicate 8192 1) 131072 split_lvl3
     \<lparr>pastEvents = zeroed_Fingerprint, newEvents = zeroed_Fingerprint\<rparr> 8208 = Some 122880
   \<and> \<not> 122880 < 131072 - CHUNKSIZE"
  using split_two_tone [of 1 8208 "\<lparr>pastEvents = zeroed_Fingerprint, newEvents = zeroed_Fingerprint\<rparr>"]
    split_two_tone [of 15 8208 "\<lparr>pastEvents = zeroed_Fingerprint, newEvents = zeroed_Fingerprint\<rparr>"]
  by (simp add: CHUNKSIZE_def sizeof_FPStats_def HASHTABLESIZE_def HASHLOG_MAX_def)



section \<open>Sensitivity of the strategies\<close>

lemma aliasing_block_length: "length aliasing_block = 16 * CHUNKSIZE"
  by (simp add: aliasing_block_def aliasing_chunk_def)

lemma aliasing_block_first: "i < CHUNKSIZE \<Longrightarrow> aliasing_block ! i = 0"
  by (simp add: aliasing_block_def nth_append)

lemma aliasing_block_second:
  "r < CHUNKSIZE \<Longrightarrow> drop (1 * CHUNKSIZE) aliasing_block ! r = (if r mod 11 < 2 then 1 else 0)"
  by (simp add: aliasing_block_def aliasing_chunk_def nth_append)

lemma aliasing_block_rest:
  assumes "2 * CHUNKSIZE \<le> i" "i < 16 * CHUNKSIZE"
  shows "aliasing_block ! i = 0"
proof -
  have "i - CHUNKSIZE - CHUNKSIZE < 14 * CHUNKSIZE" "\<not> i < CHUNKSIZE" "\<not> i - CHUNKSIZE < CHUNKSIZE"
    using assms by arith+
  then show ?thesis
    by (simp add: aliasing_block_def aliasing_chunk_def nth_append)
qed

lemma aliasing_block_drop_length: "CHUNKSIZE \<le> length (drop (1 * CHUNKSIZE) aliasing_block)"
  by (simp add: aliasing_block_length)

lemma bucket_lvl1_ones: "unat (hash2 [1, 1] 0 9) = 427"
  by (simp add: hash2_def MEM_read16_def KNUTH_def)

text \<open>Level 1 samples the second chunk at the offsets \<open>0, 11, 22, \<dots>\<close> and sees the byte 1 only.\<close>

lemma aliasing_record_lvl1:
  assumes "clean_tail 9 fp"
  shows "records_fs split_lvl1 fp (drop (1 * CHUNKSIZE) aliasing_block) CHUNKSIZE
         = Some (single_bucket 427 (chunk_hits split_lvl1) (chunk_nb split_lvl1))"
proof (rule records_fs_one_bucket [OF aliasing_block_drop_length])
  show "clean_tail (hashParams split_lvl1) fp" using assms by simp
  show "427 < HASHTABLESIZE" by (simp add: HASHTABLESIZE_def HASHLOG_MAX_def)
  fix j assume "j * samplingRates split_lvl1 < CHUNKSIZE - 1"
  then have j: "j * 11 < CHUNKSIZE" "j * 11 + 1 < CHUNKSIZE" by simp_all
  have m: "(j * 11) mod 11 = 0" "(j * 11 + 1) mod 11 = 1" by presburger+
  have "drop (1 * CHUNKSIZE) aliasing_block ! (j * 11) = 1"
    "drop (1 * CHUNKSIZE) aliasing_block ! (j * 11 + 1) = 1"
    unfolding aliasing_block_second [OF j(1)] aliasing_block_second [OF j(2)] m by simp_all
  then have "hash2 (drop (1 * CHUNKSIZE) aliasing_block) (j * 11) 9 = hash2 [1, 1] 0 9"
    by (rule hash2_window)
  then show "unat (hash2 (drop (1 * CHUNKSIZE) aliasing_block) (j * samplingRates split_lvl1) (hashParams split_lvl1)) = 427"
    by (simp add: bucket_lvl1_ones)
qed

lemma aliasing_init:
  "byChunks_init s aliasing_block workspace = Some (uniform_state s 0 1 zeroed_Fingerprint THRESHOLD_PENALTY)"
  using byChunks_init_uniform [of aliasing_block 0 s workspace] aliasing_block_first
  by (simp add: aliasing_block_length bucket_zero)

lemma aliasing_split_lvl1:
  assumes "sizeof_FPStats \<le> wkspSize"
  shows "ZSTD_splitBlock aliasing_block (128 * 2 ^ 10) split_lvl1 workspace wkspSize = Some CHUNKSIZE"
proof -
  let ?st = "uniform_state split_lvl1 0 1 zeroed_Fingerprint THRESHOLD_PENALTY"
  have "byChunks_body split_lvl1 aliasing_block ?st = Return (1 * CHUNKSIZE)"
    using byChunks_body_single [of split_lvl1 zeroed_Fingerprint 1 aliasing_block 427 THRESHOLD_PENALTY 0]
      aliasing_record_lvl1 [OF clean_tail_zeroed] 
    by (simp add: THRESHOLD_PENALTY_def HASHLOG_MAX_def)
  moreover have "pos ?st \<le> 128 * 2 ^ 10 - CHUNKSIZE"
    by (simp add: uniform_state_def CHUNKSIZE_def)
  ultimately have "byChunks_loop split_lvl1 aliasing_block (128 * 2 ^ 10) ?st = Some CHUNKSIZE"
    by (subst byChunks_loop.simps) simp
  then show ?thesis
    using assms aliasing_init [of split_lvl1 workspace] aliasing_block_length
    by (simp add: ZSTD_splitBlock_def ZSTD_splitBlock_byChunks_def CHUNKSIZE_def)
qed

text \<open>
  Level 3 samples every window of the second chunk; at least 5952 of them, those at the
  offsets \<open>11 * q + r\<close> with \<open>q < 744\<close> and \<open>2 \<le> r \<le> 9\<close>, are made of zero bytes.
\<close>

lemma aliasing_zero_windows:
  "5952 \<le> card (samples_in (drop (1 * CHUNKSIZE) aliasing_block) (CHUNKSIZE - 1) 1 10 0 0)"
proof -
  let ?src = "drop (1 * CHUNKSIZE) aliasing_block"
  let ?S = "samples_in ?src (CHUNKSIZE - 1) 1 10 0 0"
  let ?f = "\<lambda>t :: nat. 11 * (t div 8) + 2 + t mod 8"
  have inj: "inj_on ?f {..< 5952}"
  proof (rule inj_onI)
    fix x y :: nat
    assume "11 * (x div 8) + 2 + x mod 8 = 11 * (y div 8) + 2 + y mod 8"
    then show "x = y" by (rule window_offset_inj)
  qed
  have sub: "?f ` {..< 5952} \<subseteq> ?S"
  proof
    fix m assume "m \<in> ?f ` {..< 5952}"
    then obtain t where t: "t < 5952" "m = ?f t" by auto
    have lt: "m < 8183" unfolding t(2) using t(1) by (rule window_offset_bound)
    have r: "t mod 8 < 8" by simp
    have md: "\<not> m mod 11 < 2" "\<not> (m + 1) mod 11 < 2"
      unfolding t(2) window_offset_mod [OF r] window_offset_succ_mod [OF r] by simp_all
    have "m < CHUNKSIZE" "m + 1 < CHUNKSIZE" using lt by (simp_all add: CHUNKSIZE_def)
    then have "?src ! m = 0" "?src ! (m + 1) = 0"
      using md by (simp_all only: aliasing_block_second if_False)
    then have "hash2 ?src m 10 = hash2 [0, 0] 0 10" by (rule hash2_window)
    then have "unat (hash2 ?src m 10) = 0"
      using bucket_zero [of split_lvl3] by (simp add: bucket_def)
    moreover have "m < CHUNKSIZE - 1" using lt by (simp add: CHUNKSIZE_def)
    ultimately show "m \<in> ?S" by (simp add: samples_in_def)
  qed
  have "card (?f ` {..< 5952}) = 5952" using inj by (simp add: card_image)
  moreover have "card (?f ` {..< 5952}) \<le> card ?S"
    using sub by (intro card_mono samples_in_finite) simp_all
  ultimately show ?thesis by simp
qed

lemma aliasing_record_lvl3:
  "\<exists>F. records_fs split_lvl3 zeroed_Fingerprint (drop (1 * CHUNKSIZE) aliasing_block) CHUNKSIZE = Some F
       \<and> near_single 0 8191 2239 F"
proof -
  let ?src = "drop (1 * CHUNKSIZE) aliasing_block"
  obtain F where F: "records_fs split_lvl3 zeroed_Fingerprint ?src CHUNKSIZE = Some F"
    and cell: "uint (events F ! 0) = int (card (samples_in ?src (CHUNKSIZE - 1) 1 10 0 0))"
    using records_fs_cell [OF aliasing_block_drop_length, of 0 split_lvl3 zeroed_Fingerprint] by auto
  obtain F' where F': "recordFingerprint_generic zeroed_Fingerprint ?src CHUNKSIZE 1 10 = Some F'"
    and cnt: "wf_Fingerprint F'" "events_total 10 F' = int ((CHUNKSIZE - 2) div 1 + 1)"
      "uint (nbEvents F') = int ((CHUNKSIZE - 1) div 1)"
    using recordFingerprint_generic_counts [of CHUNKSIZE ?src 1 10 zeroed_Fingerprint]
      aliasing_block_drop_length wf_zeroed
    by (auto simp: CHUNKSIZE_def HASHLENGTH_def HASHLOG_MAX_def)
  have "F' = F" using F F' by (simp add: ZSTD_recordFingerprint_1_def)
  with cnt cell aliasing_zero_windows have "near_single 0 8191 2239 F"
    by (simp add: near_single_def wf_Fingerprint_def HASHLOG_MAX_def CHUNKSIZE_def)
  with F show ?thesis by blast
qed

lemma clean_tail_full: "length (events fp) = HASHTABLESIZE \<Longrightarrow> clean_tail HASHLOG_MAX fp"
  by (simp add: clean_tail_def pow_HASHLOG_MAX)

lemma hashParams_lvl3: "hashParams split_lvl3 = HASHLOG_MAX"
  by (simp add: HASHLOG_MAX_def)

lemma chunk_counts_lvl3: "chunk_hits split_lvl3 = 8191" "chunk_nb split_lvl3 = 8191"
  by (simp_all add: chunk_hits_eq chunk_nb_eq)

text \<open>
  At level 3, a chunk of zero bytes is accepted when the reference holds \<open>k \<ge> 2\<close> chunks
  of which all samples but 2239 are in bucket 0.
\<close>

lemma byChunks_body_near_single:
  assumes ns: "near_single 0 (int k * 8191) 2239 (pastEvents (fpstats st))"
    and new: "length (events (newEvents (fpstats st))) = HASHTABLESIZE"
    and pos: "pos st = k * CHUNKSIZE" and pen: "0 \<le> penalty st" "penalty st \<le> 3"
    and k: "2 \<le> k" "k \<le> 15"
    and zero: "\<And>i. i < CHUNKSIZE \<Longrightarrow> p ! (k * CHUNKSIZE + i) = 0"
    and len: "(k + 1) * CHUNKSIZE \<le> length p"
  shows "\<exists>st'. byChunks_body split_lvl3 p st = Continue st'
           \<and> near_single 0 (int (k + 1) * 8191) 2239 (pastEvents (fpstats st'))
           \<and> length (events (newEvents (fpstats st'))) = HASHTABLESIZE
           \<and> pos st' = (k + 1) * CHUNKSIZE \<and> 0 \<le> penalty st' \<and> penalty st' \<le> 3"
proof -
  let ?past = "pastEvents (fpstats st)" and ?cand = "single_bucket 0 8191 8191"
  have h0: "(0 :: nat) < HASHTABLESIZE" by (simp add: HASHTABLESIZE_def)
  have "records_fs split_lvl3 (newEvents (fpstats st)) (drop (k * CHUNKSIZE) p) CHUNKSIZE
        = Some (single_bucket (bucket split_lvl3 0 0) (chunk_hits split_lvl3) (chunk_nb split_lvl3))"
    using uniform_chunk_drop [OF zero len] clean_tail_full [OF new]
    by (intro records_fs_uniform) (simp_all only: hashParams_lvl3)
  then have rec: "records_fs split_lvl3 (newEvents (fpstats st)) (drop (pos st) p) CHUNKSIZE = Some ?cand"
    by (simp only: bucket_zero chunk_counts_lvl3 pos)
  have kN: "0 < int k * 8191" "int k * 8191 < 2 ^ 20" using k by simp_all
  have "2 * 8191 * 8191 * 14 \<le> int k * 8191 * 8191 * 14" using k by simp
  then have "2 * 8191 * 8191 * 14 div 16 \<le> int k * 8191 * int 8191 * 14 div 16"
    by (intro zdiv_mono1) simp_all
  then have thr: "2 * int 8191 * 2239 < int k * 8191 * int 8191 * 14 div 16" by simp
  have cmp: "compareFingerprints ?past ?cand (penalty st) (hashParams split_lvl3) = Some False"
    unfolding hashParams_lvl3
    by (rule near_single_compare(1) [OF ns h0 _ _ kN pen thr]) simp_all
  have "int k * 8191 + int 8191 < 2 ^ 32" using k by simp
  from near_single_merge(1) [OF ns h0 this]
  have mrg: "near_single 0 (int (k + 1) * 8191) 2239 (mergeEvents ?past ?cand)"
    by (simp add: algebra_simps)
  have "length (events ?cand) = HASHTABLESIZE" by (simp add: single_bucket_def)
  then show ?thesis
    using rec cmp mrg pen pos by (simp add: byChunks_body_def)
qed

lemma byChunks_loop_near_single:
  assumes "near_single 0 (int k * 8191) 2239 (pastEvents (fpstats st))"
    and "length (events (newEvents (fpstats st))) = HASHTABLESIZE"
    and "pos st = k * CHUNKSIZE" and "0 \<le> penalty st" "penalty st \<le> 3"
    and "2 \<le> k" "k \<le> 16"
    and zero: "\<And>i. 2 * CHUNKSIZE \<le> i \<Longrightarrow> i < 16 * CHUNKSIZE \<Longrightarrow> p ! i = 0"
    and len: "length p = 16 * CHUNKSIZE"
  shows "byChunks_loop split_lvl3 p (16 * CHUNKSIZE) st = Some (16 * CHUNKSIZE)"
  using assms(1-7)
proof (induction "16 - k" arbitrary: k st)
  case 0
  then have "k = 16" by simp
  with 0 show ?case by (subst byChunks_loop.simps) (simp add: CHUNKSIZE_def)
next
  case (Suc d)
  then have k: "2 \<le> k" "k \<le> 15" by simp_all
  have le: "(k + 1) * CHUNKSIZE \<le> 16 * CHUNKSIZE" using k by (intro mult_right_mono) simp_all
  have z: "p ! (k * CHUNKSIZE + i) = 0" if "i < CHUNKSIZE" for i
  proof (rule zero)
    have "2 * CHUNKSIZE \<le> k * CHUNKSIZE" using k by (intro mult_right_mono) simp_all
    then show "2 * CHUNKSIZE \<le> k * CHUNKSIZE + i" by (rule trans_le_add1)
    have "k * CHUNKSIZE + CHUNKSIZE \<le> 16 * CHUNKSIZE"
      using le by (simp only: add_mult_distrib mult_1)
    then show "k * CHUNKSIZE + i < 16 * CHUNKSIZE" using that by arith
  qed
  obtain st' where st': "byChunks_body split_lvl3 p st = Continue st'"
    "near_single 0 (int (k + 1) * 8191) 2239 (pastEvents (fpstats st'))"
    "length (events (newEvents (fpstats st'))) = HASHTABLESIZE"
    "pos st' = (k + 1) * CHUNKSIZE" "0 \<le> penalty st'" "penalty st' \<le> 3"
    using byChunks_body_near_single [OF Suc.prems(1-5) k z] le len by auto
  have "byChunks_loop split_lvl3 p (16 * CHUNKSIZE) st' = Some (16 * CHUNKSIZE)"
  proof (rule Suc.hyps(1) [of "k + 1" st'])
    show "d = 16 - (k + 1)" using Suc.hyps(2) by simp
    show "2 \<le> k + 1" "k + 1 \<le> 16" using k by simp_all
  qed (rule st')+
  moreover have "pos st \<le> 16 * CHUNKSIZE - CHUNKSIZE"
    using le Suc.prems(3) by simp
  ultimately show ?case using st'(1) by (subst byChunks_loop.simps) simp
qed

lemma aliasing_no_split_lvl3:
  assumes "sizeof_FPStats \<le> wkspSize"
  shows "ZSTD_splitBlock aliasing_block (128 * 2 ^ 10) split_lvl3 workspace wkspSize = Some (128 * 2 ^ 10)"
proof -
  let ?st = "uniform_state split_lvl3 0 1 zeroed_Fingerprint THRESHOLD_PENALTY"
  let ?past = "single_bucket 0 8191 8191"
  have bs: "(128 * 2 ^ 10 :: nat) = 16 * CHUNKSIZE" by (simp add: CHUNKSIZE_def)
  have h0: "(0 :: nat) < HASHTABLESIZE" by (simp add: HASHTABLESIZE_def)
  obtain F where F: "records_fs split_lvl3 zeroed_Fingerprint (drop (1 * CHUNKSIZE) aliasing_block) CHUNKSIZE = Some F"
    and ns: "near_single 0 8191 2239 F"
    using aliasing_record_lvl3 by blast
  have cmp: "compareFingerprints ?past F THRESHOLD_PENALTY (hashParams split_lvl3) = Some False"
    unfolding hashParams_lvl3
    by (rule near_single_compare(2) [OF ns h0]) (simp_all add: THRESHOLD_PENALTY_def)
  have mrg: "near_single 0 (8191 + int 8191) 2239 (mergeEvents ?past F)"
    by (rule near_single_merge(2) [OF ns h0]) simp
  let ?st' = "\<lparr>fpstats = \<lparr>pastEvents = mergeEvents ?past F, newEvents = F\<rparr>,
               penalty = THRESHOLD_PENALTY - 1, pos = 2 * CHUNKSIZE\<rparr>"
  have body: "byChunks_body split_lvl3 aliasing_block ?st = Continue ?st'"
    using F cmp by (simp add: byChunks_body_def uniform_state_def chunk_counts_lvl3 THRESHOLD_PENALTY_def)
  have "byChunks_loop split_lvl3 aliasing_block (16 * CHUNKSIZE) ?st' = Some (16 * CHUNKSIZE)"
  proof (rule byChunks_loop_near_single [where k = 2])
    show "near_single 0 (int 2 * 8191) 2239 (pastEvents (fpstats ?st'))" using mrg by simp
    show "length (events (newEvents (fpstats ?st'))) = HASHTABLESIZE"
      using ns by (simp add: near_single_def)
    show "aliasing_block ! i = 0" if "2 * CHUNKSIZE \<le> i" "i < 16 * CHUNKSIZE" for i
      using that by (rule aliasing_block_rest)
  qed (simp_all add: THRESHOLD_PENALTY_def aliasing_block_length)
  moreover have "pos ?st \<le> 16 * CHUNKSIZE - CHUNKSIZE" by (simp add: uniform_state_def)
  ultimately have "byChunks_loop split_lvl3 aliasing_block (16 * CHUNKSIZE) ?st = Some (16 * CHUNKSIZE)"
    using body by (subst byChunks_loop.simps) simp
  then show ?thesis
    using assms aliasing_init [of split_lvl3 workspace] aliasing_block_length
    by (simp add: ZSTD_splitBlock_def ZSTD_splitBlock_byChunks_def CHUNKSIZE_def)
qed

text \<open>
  Claim C10, as amended. On the same chunk, level 3 samples every window that level 1
  samples, and its bucket of 10 bits determines the bucket of 9 bits of level 1. So the
  fingerprint of level 3 refines the one of level 1: the counter of bucket \<open>b\<close> at
  level 1 is at most the sum of the counters of the buckets \<open>2 * b\<close> and \<open>2 * b + 1\<close>
  at level 3. Nothing follows for the verdicts.
\<close>

theorem level3_refines_level1:
  assumes "CHUNKSIZE \<le> length src" "b < 2 ^ 9"
  shows "\<exists>F1 F3. records_fs split_lvl1 fp1 src CHUNKSIZE = Some F1
           \<and> records_fs split_lvl3 fp3 src CHUNKSIZE = Some F3
           \<and> uint (events F1 ! b) \<le> uint (events F3 ! (2 * b)) + uint (events F3 ! (2 * b + 1))"
proof -
  have b: "2 * b < 2 ^ 10" "2 * b + 1 < 2 ^ 10" using assms(2) by simp_all
  obtain F1 where F1: "records_fs split_lvl1 fp1 src CHUNKSIZE = Some F1"
    "uint (events F1 ! b) = int (card (samples_in src (CHUNKSIZE - 1) 11 9 0 b))"
    using records_fs_cell [OF assms(1), of b split_lvl1 fp1] assms(2) by auto
  obtain F3 where F3: "records_fs split_lvl3 fp3 src CHUNKSIZE = Some F3"
    "uint (events F3 ! (2 * b)) = int (card (samples_in src (CHUNKSIZE - 1) 1 10 0 (2 * b)))"
    "uint (events F3 ! (2 * b + 1)) = int (card (samples_in src (CHUNKSIZE - 1) 1 10 0 (2 * b + 1)))"
    using records_fs_cell [OF assms(1), of "2 * b" split_lvl3 fp3]
      records_fs_cell [OF assms(1), of "2 * b + 1" split_lvl3 fp3] b by auto
  from samples_in_refine [of src "CHUNKSIZE - 1" b] F1 F3 show ?thesis
    by (intro exI [of _ F1] exI [of _ F3]) simp
qed

text \<open>The theorem at a chunk of zero bytes and bucket 0: 745 samples against 8191.\<close>

theorem level3_refines_level1_witness:
  "CHUNKSIZE \<le> length (replicate 8192 (0 :: 8 word)) \<and> (0 :: nat) < 2 ^ 9
   \<and> records_fs split_lvl1 zeroed_Fingerprint (replicate 8192 0) CHUNKSIZE = Some (single_bucket 0 745 744)
   \<and> records_fs split_lvl3 zeroed_Fingerprint (replicate 8192 0) CHUNKSIZE = Some (single_bucket 0 8191 8191)
   \<and> uint (events (single_bucket 0 745 744) ! 0)
       \<le> uint (events (single_bucket 0 8191 8191) ! (2 * 0)) + uint (events (single_bucket 0 8191 8191) ! (2 * 0 + 1))"
proof -
  have h: "CHUNKSIZE \<le> length (replicate 8192 (0 :: 8 word))" "(0 :: nat) < 2 ^ 9"
    by (simp_all add: CHUNKSIZE_def)
  have r: "records_fs split_lvl1 zeroed_Fingerprint (replicate 8192 0) CHUNKSIZE = Some (single_bucket 0 745 744)"
    "records_fs split_lvl3 zeroed_Fingerprint (replicate 8192 0) CHUNKSIZE = Some (single_bucket 0 8191 8191)"
    using record_zero_chunk [of split_lvl1] record_zero_chunk [of split_lvl3]
    by (simp_all add: chunk_hits_eq chunk_nb_eq CHUNKSIZE_def)
  from level3_refines_level1 [OF h, of zeroed_Fingerprint zeroed_Fingerprint] r h
  show ?thesis by simp
qed

text \<open>
  Claim C10, as stated, fails on \<open>aliasing_block\<close>. The chunk size is 8 modulo 11, so
  level 1 samples the second chunk exactly at the bytes 1: it sees one bucket in the
  first chunk and another one in the second, and splits at 8192. Level 3 samples every
  window: 5952 or more of the 8191 windows of the second chunk are zero windows as in the
  first chunk, the distance stays below the threshold in all fifteen comparisons, and
  the block is not split.
\<close>

theorem sensitivity_order_counterexample:
  "length aliasing_block = 128 * 2 ^ 10
   \<and> ZSTD_splitBlock aliasing_block (128 * 2 ^ 10) split_lvl1
       \<lparr>pastEvents = zeroed_Fingerprint, newEvents = zeroed_Fingerprint\<rparr> 8208 = Some 8192
   \<and> (8192 :: nat) < 128 * 2 ^ 10
   \<and> ZSTD_splitBlock aliasing_block (128 * 2 ^ 10) split_lvl3
       \<lparr>pastEvents = zeroed_Fingerprint, newEvents = zeroed_Fingerprint\<rparr> 8208 = Some (128 * 2 ^ 10)"
proof -
  have w: "sizeof_FPStats \<le> 8208"
    by (simp add: sizeof_FPStats_def HASHTABLESIZE_def HASHLOG_MAX_def)
  from aliasing_split_lvl1 [OF w] aliasing_no_split_lvl3 [OF w] aliasing_block_length
  show ?thesis by (simp add: CHUNKSIZE_def)
qed

section \<open>Scratch memory\<close>

text \<open>
  Claim C8. The offset returned by \<open>ZSTD_splitBlock\<close> depends on the block, its size and
  the strategy only: two calls that differ in nothing but the prior contents of the
  workspace return the same result, because \<open>initStats\<close> overwrites the whole state
  with zeroes before anything reads it.
\<close>

theorem splitBlock_ignores_workspace:
  "ZSTD_splitBlock blockStart blockSize splitStrat workspace1 wkspSize =
   ZSTD_splitBlock blockStart blockSize splitStrat workspace2 wkspSize
   \<and> initStats workspace1 = \<lparr>pastEvents = zeroed_Fingerprint, newEvents = zeroed_Fingerprint\<rparr>"
  by (simp add: ZSTD_splitBlock_def ZSTD_splitBlock_byChunks_def byChunks_init_def initStats_def)

end
